theory Spec2Isabelle
  imports Main "HOL-Library.Multiset" "HOL-Library.Word"
begin

section \<open>JavaScript strings\<close>

text \<open>
  A JavaScript string is a sequence of 16-bit code units. The completion text, which
  the program takes apart, is modelled this way: a \<open>jstring\<close>. \<open>cu c\<close> is the code unit
  of a character of the first 256 code points, and \<open>js s\<close> the JavaScript string of a
  text of such characters. The texts that the program only passes on or tests for
  presence (ids, URLs, messages, the text of a resume) are plain \<open>string\<close>s.
\<close>

type_synonym code_unit = "16 word"

type_synonym jstring = "code_unit list"

definition cu :: "char \<Rightarrow> code_unit" where
  "cu c = of_nat (of_char c)"

definition js :: "string \<Rightarrow> jstring" where
  "js s = map cu s"

text \<open>
  \<open>js_space\<close> is the white space that \<open>String.prototype.trim\<close> removes and that \<open>\s\<close>
  matches in a regular expression: the white space and the line terminators of the
  language. These are tab, line feed, vertical tab, form feed, carriage return, space,
  the no-break space, the other space separators (\<open>U+1680\<close>, \<open>U+2000\<close> to \<open>U+200A\<close>,
  \<open>U+202F\<close>, \<open>U+205F\<close>, \<open>U+3000\<close>), the line and paragraph separators and the byte order
  mark.
\<close>

definition js_space :: "code_unit \<Rightarrow> bool" where
  "js_space c \<longleftrightarrow>
     c = 0x09 \<or> c = 0x0A \<or> c = 0x0B \<or> c = 0x0C \<or> c = 0x0D \<or> c = 0x20 \<or> c = 0xA0 \<or>
     c = 0x1680 \<or> (0x2000 \<le> c \<and> c \<le> 0x200A) \<or> c = 0x2028 \<or> c = 0x2029 \<or>
     c = 0x202F \<or> c = 0x205F \<or> c = 0x3000 \<or> c = 0xFEFF"

definition trim :: "jstring \<Rightarrow> jstring" where
  "trim s = rev (dropWhile js_space (rev (dropWhile js_space s)))"

fun startsWith :: "'a list \<Rightarrow> 'a list \<Rightarrow> bool" where
  "startsWith s [] = True"
| "startsWith [] (p # ps) = False"
| "startsWith (c # cs) (p # ps) = (c = p \<and> startsWith cs ps)"

definition endsWith :: "'a list \<Rightarrow> 'a list \<Rightarrow> bool" where
  "endsWith s p = startsWith (rev s) (rev p)"

text \<open>\<open>s.includes(p)\<close>: \<open>p\<close> occurs somewhere in \<open>s\<close>.\<close>

fun includes_str :: "'a list \<Rightarrow> 'a list \<Rightarrow> bool" where
  "includes_str [] p = (p = [])"
| "includes_str (c # cs) p = (startsWith (c # cs) p \<or> includes_str cs p)"

text \<open>
  \<open>s.replace(/lit/, "")\<close> for a regular expression that is a literal text: the first
  occurrence of the text is removed. \<open>s.replace(/lit$/, "")\<close>: the text is removed
  when the string ends with it (no \<open>m\<close> flag, so \<open>$\<close> is the end of the input).
\<close>

fun remove_first :: "'a list \<Rightarrow> 'a list \<Rightarrow> 'a list" where
  "remove_first lit [] = []"
| "remove_first lit (c # cs) =
     (if startsWith (c # cs) lit then drop (length lit) (c # cs)
      else c # remove_first lit cs)"

definition remove_at_end :: "'a list \<Rightarrow> 'a list \<Rightarrow> 'a list" where
  "remove_at_end lit s = (if endsWith s lit then take (length s - length lit) s else s)"

definition fence :: string where
  "fence = [CHR 0x60, CHR 0x60, CHR 0x60]"

definition newline :: string where
  "newline = [CHR 0x0A]"

text \<open>
  The removal of the markdown code fence, as both copies of the parsing block have it:
  \<^verbatim>\<open>if (jsonString.startsWith("```json")) {
    jsonString = jsonString.replace(/```json\n/, "").replace(/\n```$/, "");
  } else if (jsonString.startsWith("```")) {
    jsonString = jsonString.replace(/```\n/, "").replace(/\n```$/, "");
  }\<close>
\<close>

definition strip_fences :: "jstring \<Rightarrow> jstring" where
  "strip_fences jsonString =
     (if startsWith jsonString (js (fence @ ''json''))
      then remove_at_end (js (newline @ fence))
             (remove_first (js (fence @ ''json'' @ newline)) jsonString)
      else if startsWith jsonString (js fence)
      then remove_at_end (js (newline @ fence)) (remove_first (js (fence @ newline)) jsonString)
      else jsonString)"

subsection \<open>The regular expression of the array extraction\<close>

text \<open>
  \<^verbatim>\<open>jsonString.match(/\[\s*\{[\s\S]*\}\s*\]/)\<close> is the leftmost match of: an opening
  square bracket, white space, an opening brace, then any code units, as many as
  possible (\<open>[\s\S]*\<close> is greedy), then a closing brace, white space and a closing
  square bracket. Neither \<open>{\<close> nor \<open>]\<close> is white space, so the two \<open>\s*\<close> have one
  way to match; the only backtracking is that of \<open>[\s\S]*\<close>, from the longest
  candidate down.

  \<open>open_at\<close> and \<open>close_at\<close> match \<open>\[\s*\{\<close> and \<open>\}\s*\]\<close> at the start of a string
  and give the number of code units matched; \<open>greedy_body\<close> matches
  \<open>[\s\S]*\}\s*\]\<close> at the start of a string, the longest way.
\<close>

definition open_at :: "jstring \<Rightarrow> nat option" where
  "open_at s =
     (case s of
        [] \<Rightarrow> None
      | c # r \<Rightarrow>
          if c = cu CHR ''['' then
            (case dropWhile js_space r of
               [] \<Rightarrow> None
             | d # t \<Rightarrow> if d = cu CHR ''{'' then Some (length (takeWhile js_space r) + 2) else None)
          else None)"

definition close_at :: "jstring \<Rightarrow> nat option" where
  "close_at s =
     (case s of
        [] \<Rightarrow> None
      | c # r \<Rightarrow>
          if c = cu CHR ''}'' then
            (case dropWhile js_space r of
               [] \<Rightarrow> None
             | d # t \<Rightarrow> if d = cu CHR '']'' then Some (length (takeWhile js_space r) + 2) else None)
          else None)"

fun greedy_body :: "jstring \<Rightarrow> nat option" where
  "greedy_body [] = None"
| "greedy_body (c # cs) =
     (case greedy_body cs of
        Some n \<Rightarrow> Some (Suc n)
      | None \<Rightarrow> close_at (c # cs))"

definition match_at :: "jstring \<Rightarrow> jstring option" where
  "match_at s =
     (case open_at s of
        None \<Rightarrow> None
      | Some k \<Rightarrow>
          (case greedy_body (drop k s) of
             None \<Rightarrow> None
           | Some n \<Rightarrow> Some (take (k + n) s)))"

fun jsonArrayMatch :: "jstring \<Rightarrow> jstring option" where
  "jsonArrayMatch [] = None"
| "jsonArrayMatch (c # cs) =
     (case match_at (c # cs) of
        Some m \<Rightarrow> Some m
      | None \<Rightarrow> jsonArrayMatch cs)"

text \<open>
  The repair of the completion text before \<open>JSON.parse\<close>: trim, strip the fence,
  keep the match of the regular expression when there is one.
\<close>

definition repair :: "jstring \<Rightarrow> jstring" where
  "repair responseContent =
     (let jsonString = strip_fences (trim responseContent)
      in case jsonArrayMatch jsonString of
           Some m \<Rightarrow> m
         | None \<Rightarrow> jsonString)"

section \<open>Numbers\<close>

text \<open>
  A JavaScript number is a double: 64 bits, which are the sign, 11 bits of exponent and
  52 bits of fraction. So \<open>0x4014000000000000\<close> is the number 5, and
  \<open>0x7FF0000000000000\<close> is infinity.
\<close>

type_synonym double = "64 word"

text \<open>The number of binary digits of a positive integer.\<close>

function bit_length :: "int \<Rightarrow> nat" where
  "bit_length n = (if n \<le> 0 then 0 else Suc (bit_length (n div 2)))"
  by pat_completeness auto

termination
  by (relation "measure nat") auto

declare bit_length.simps [simp del]

text \<open>
  For positive \<open>num\<close> and \<open>den\<close>: the integer \<open>E\<close> with
  \<open>2 ^ E \<le> num / den < 2 ^ (E + 1)\<close>. It is the difference of the bit lengths, or one
  less.
\<close>

definition floor_log2 :: "int \<Rightarrow> int \<Rightarrow> int" where
  "floor_log2 num den =
     (let e0 = int (bit_length num) - int (bit_length den)
      in if (if e0 < 0 then den \<le> num * 2 ^ nat (- e0) else den * 2 ^ nat e0 \<le> num)
         then e0 else e0 - 1)"

text \<open>
  The 63 bits after the sign of the double nearest to \<open>num / den\<close>. With \<open>E\<close> as above,
  the doubles around the number are the multiples of \<open>2 ^ u\<close>, where \<open>u = E - 52\<close>, or
  \<open>u = - 1074\<close> for the numbers below \<open>2 ^ - 1022\<close>, whose spacing does not shrink
  further. \<open>M\<close> is the nearest multiple, the even one of two that are equally near; it
  has at most 53 bits, or is \<open>2 ^ 53\<close>. The exponent field is \<open>E + 1023\<close>, and 0 below
  \<open>2 ^ - 1022\<close>; the fraction is \<open>M\<close> without its bit 52. Both cases, and the carry
  into the exponent when \<open>M\<close> is \<open>2 ^ 53\<close>, are the sum below; a sum that reaches the
  exponent field 2047 is infinity.
\<close>

definition magnitude_bits :: "int \<Rightarrow> int \<Rightarrow> int" where
  "magnitude_bits num den =
     (if num = 0 then 0
      else
        (let E = floor_log2 num den;
             Ec = max E (- 1022);
             u = Ec - 52;
             N = (if u < 0 then num * 2 ^ nat (- u) else num);
             D = (if u < 0 then den else den * 2 ^ nat u);
             M0 = N div D;
             M = (if D < 2 * (N mod D) \<or> (2 * (N mod D) = D \<and> odd M0) then M0 + 1 else M0)
         in if 1024 \<le> E then 0x7FF0000000000000
            else (Ec + 1022) * 2 ^ 52 + M))"

definition round_double :: "bool \<Rightarrow> int \<Rightarrow> int \<Rightarrow> double" where
  "round_double neg num den = word_of_int ((if neg then 2 ^ 63 else 0) + magnitude_bits num den)"

section \<open>JSON values and \<open>JSON.parse\<close>\<close>

text \<open>
  The values \<open>JSON.parse\<close> returns. An object is the list of its properties in the
  order in which the language enumerates them, each name once.
\<close>

datatype json =
    JNull
  | JBool bool
  | JNum double
  | JStr jstring
  | JArr "json list"
  | JObj "(jstring \<times> json) list"

text \<open>
  \<open>JSON.parse\<close> follows the JSON grammar: white space is space, tab, line feed and
  carriage return; a string has no raw control character; the escapes are
  \<open>\" \\ \/ \b \f \n \r \t\<close> and \<open>\uXXXX\<close>, which stands for the code unit with that
  number.
\<close>

definition json_ws :: "code_unit \<Rightarrow> bool" where
  "json_ws c \<longleftrightarrow> c = 0x20 \<or> c = 0x09 \<or> c = 0x0A \<or> c = 0x0D"

definition is_digit :: "code_unit \<Rightarrow> bool" where
  "is_digit c \<longleftrightarrow> 0x30 \<le> c \<and> c \<le> 0x39"

definition hex_digit :: "code_unit \<Rightarrow> int option" where
  "hex_digit c =
     (let n = uint c
      in if 48 \<le> n \<and> n \<le> 57 then Some (n - 48)
         else if 65 \<le> n \<and> n \<le> 70 then Some (n - 55)
         else if 97 \<le> n \<and> n \<le> 102 then Some (n - 87)
         else None)"

definition hex4 :: "jstring \<Rightarrow> code_unit option" where
  "hex4 s =
     (case s of
        a # b # c # d # _ \<Rightarrow>
          (case (hex_digit a, hex_digit b, hex_digit c, hex_digit d) of
             (Some x, Some y, Some z, Some w) \<Rightarrow> Some (word_of_int (4096 * x + 256 * y + 16 * z + w))
           | _ \<Rightarrow> None)
      | _ \<Rightarrow> None)"

definition unescape :: "code_unit \<Rightarrow> code_unit option" where
  "unescape e =
     (if e = cu (CHR 0x22) then Some (cu (CHR 0x22))
      else if e = cu (CHR 0x5C) then Some (cu (CHR 0x5C))
      else if e = cu CHR ''/'' then Some (cu CHR ''/'')
      else if e = cu CHR ''b'' then Some 0x08
      else if e = cu CHR ''f'' then Some 0x0C
      else if e = cu CHR ''n'' then Some 0x0A
      else if e = cu CHR ''r'' then Some 0x0D
      else if e = cu CHR ''t'' then Some 0x09
      else None)"

text \<open>The code units of a string after its opening quote, up to the closing quote.\<close>

fun parse_string_body :: "jstring \<Rightarrow> (jstring \<times> jstring) option" where
  "parse_string_body [] = None"
| "parse_string_body (c # cs) =
     (if c = cu (CHR 0x22) then Some ([], cs)
      else if c = cu (CHR 0x5C) then
        (case cs of
           [] \<Rightarrow> None
         | e # r \<Rightarrow>
             if e = cu CHR ''u'' then
               (case hex4 r of
                  None \<Rightarrow> None
                | Some ch \<Rightarrow> map_option (\<lambda>(str, t). (ch # str, t)) (parse_string_body (drop 4 r)))
             else
               (case unescape e of
                  None \<Rightarrow> None
                | Some ch \<Rightarrow> map_option (\<lambda>(str, t). (ch # str, t)) (parse_string_body r)))
      else if c < 0x20 then None
      else map_option (\<lambda>(str, t). (c # str, t)) (parse_string_body cs))"

text \<open>
  A number: an optional minus, \<open>0\<close> or a digit sequence, an optional fraction, an
  optional exponent. Each part gives its text and the rest of the input.
\<close>

definition parse_int_part :: "jstring \<Rightarrow> (jstring \<times> jstring) option" where
  "parse_int_part s =
     (case s of
        [] \<Rightarrow> None
      | c # r \<Rightarrow>
          if c = cu CHR ''0'' then Some ([c], r)
          else if is_digit c then Some (takeWhile is_digit s, dropWhile is_digit s)
          else None)"

definition parse_frac :: "jstring \<Rightarrow> (jstring \<times> jstring) option" where
  "parse_frac s =
     (case s of
        [] \<Rightarrow> Some ([], s)
      | c # r \<Rightarrow>
          if c = cu CHR ''.'' then
            (if takeWhile is_digit r = [] then None
             else Some (c # takeWhile is_digit r, dropWhile is_digit r))
          else Some ([], s))"

definition parse_exp :: "jstring \<Rightarrow> (jstring \<times> jstring) option" where
  "parse_exp s =
     (case s of
        [] \<Rightarrow> Some ([], s)
      | c # r \<Rightarrow>
          if c = cu CHR ''e'' \<or> c = cu CHR ''E'' then
            (let (sg, r') = (case r of
                               [] \<Rightarrow> ([], r)
                             | d # t \<Rightarrow> if d = cu CHR ''+'' \<or> d = cu CHR ''-'' then ([d], t) else ([], r))
             in if takeWhile is_digit r' = [] then None
                else Some (c # sg @ takeWhile is_digit r', dropWhile is_digit r'))
          else Some ([], s))"

text \<open>
  The value of a literal with sign \<open>sg\<close> (empty, or the minus), digits \<open>ip\<close>, fraction
  \<open>fp\<close> (empty, or the point and its digits) and exponent \<open>ep\<close> (empty, or the letter, a
  sign or none, and digits): the double nearest to the number written.
\<close>

definition digits_value :: "jstring \<Rightarrow> int" where
  "digits_value ds = foldl (\<lambda>n c. 10 * n + (uint c - 48)) 0 ds"

definition exponent_value :: "jstring \<Rightarrow> int" where
  "exponent_value ep =
     (case ep of
        [] \<Rightarrow> 0
      | e # r \<Rightarrow>
          (case r of
             [] \<Rightarrow> 0
           | d # ds \<Rightarrow>
               if d = cu CHR ''-'' then - digits_value ds
               else if d = cu CHR ''+'' then digits_value ds
               else digits_value (d # ds)))"

definition number_value :: "jstring \<Rightarrow> jstring \<Rightarrow> jstring \<Rightarrow> jstring \<Rightarrow> double" where
  "number_value sg ip fp ep =
     (let n = digits_value (ip @ tl fp);
          x = exponent_value ep - int (length (tl fp))
      in if x < 0 then round_double (sg \<noteq> []) n (10 ^ nat (- x))
         else round_double (sg \<noteq> []) (n * 10 ^ nat x) 1)"

definition parse_number :: "jstring \<Rightarrow> (double \<times> jstring) option" where
  "parse_number s =
     (let (sg, s1) = (case s of
                        [] \<Rightarrow> ([], s)
                      | c # r \<Rightarrow> if c = cu CHR ''-'' then ([c], r) else ([], s))
      in case parse_int_part s1 of
           None \<Rightarrow> None
         | Some (ip, s2) \<Rightarrow>
             (case parse_frac s2 of
                None \<Rightarrow> None
              | Some (fp, s3) \<Rightarrow>
                  (case parse_exp s3 of
                     None \<Rightarrow> None
                   | Some (ep, s4) \<Rightarrow> Some (number_value sg ip fp ep, s4))))"

text \<open>A scalar: a string, \<open>true\<close>, \<open>false\<close>, \<open>null\<close> or a number.\<close>

definition parse_scalar :: "jstring \<Rightarrow> (json \<times> jstring) option" where
  "parse_scalar s =
     (case s of
        [] \<Rightarrow> None
      | c # r \<Rightarrow>
          if c = cu (CHR 0x22) then
            map_option (\<lambda>(str, t). (JStr str, t)) (parse_string_body r)
          else if startsWith (c # r) (js ''true'') then Some (JBool True, drop 4 (c # r))
          else if startsWith (c # r) (js ''false'') then Some (JBool False, drop 5 (c # r))
          else if startsWith (c # r) (js ''null'') then Some (JNull, drop 4 (c # r))
          else map_option (\<lambda>(x, t). (JNum x, t)) (parse_number (c # r)))"

subsection \<open>The properties of an object\<close>

text \<open>
  \<open>JSON.parse\<close> defines the members of an object one after the other, in the order
  of the text, as properties of a new object. A name that the object has already
  keeps its place and takes the new value, so the last member of a repeated name is
  the one that stays. The properties of an object are enumerated with the array
  indices first, in ascending order, then the other names in the order of their
  creation. An array index is the decimal text, without leading zeros, of a number
  below \<open>2 ^ 32 - 1\<close>.
\<close>

definition array_index :: "jstring \<Rightarrow> int option" where
  "array_index k =
     (if k \<noteq> [] \<and> list_all is_digit k \<and> (hd k = cu CHR ''0'' \<longrightarrow> length k = 1)
         \<and> digits_value k < 2 ^ 32 - 1
      then Some (digits_value k) else None)"

fun put_index :: "int \<Rightarrow> jstring \<Rightarrow> 'v \<Rightarrow> (jstring \<times> 'v) list \<Rightarrow> (jstring \<times> 'v) list" where
  "put_index i k v [] = [(k, v)]"
| "put_index i k v ((k', v') # ps) =
     (case array_index k' of
        Some j \<Rightarrow> if j < i then (k', v') # put_index i k v ps else (k, v) # (k', v') # ps
      | None \<Rightarrow> (k, v) # (k', v') # ps)"

fun replace_value :: "jstring \<Rightarrow> 'v \<Rightarrow> (jstring \<times> 'v) list \<Rightarrow> (jstring \<times> 'v) list" where
  "replace_value k v [] = []"
| "replace_value k v ((k', v') # ps) =
     (if k' = k then (k', v) # ps else (k', v') # replace_value k v ps)"

definition set_property :: "(jstring \<times> 'v) list \<Rightarrow> jstring \<times> 'v \<Rightarrow> (jstring \<times> 'v) list" where
  "set_property ps kv =
     (case kv of
        (k, v) \<Rightarrow>
          if k \<in> set (map fst ps) then replace_value k v ps
          else (case array_index k of
                  Some i \<Rightarrow> put_index i k v ps
                | None \<Rightarrow> ps @ [(k, v)]))"

definition properties :: "(jstring \<times> 'v) list \<Rightarrow> (jstring \<times> 'v) list" where
  "properties members = foldl set_property [] members"

text \<open>
  The text after \<open>[\<close>: the empty array, or the elements; after \<open>{\<close>: the empty
  object, or the members. The parser of the elements or members is a parameter.
\<close>

definition parse_array :: "(jstring \<Rightarrow> (json list \<times> jstring) option) \<Rightarrow> jstring \<Rightarrow> (json \<times> jstring) option" where
  "parse_array elements r =
     (case dropWhile json_ws r of
        [] \<Rightarrow> None
      | d # t \<Rightarrow>
          if d = cu CHR '']'' then Some (JArr [], t)
          else map_option (\<lambda>(vs, u). (JArr vs, u)) (elements r))"

definition parse_object :: "(jstring \<Rightarrow> ((jstring \<times> json) list \<times> jstring) option) \<Rightarrow> jstring \<Rightarrow> (json \<times> jstring) option" where
  "parse_object members r =
     (case dropWhile json_ws r of
        [] \<Rightarrow> None
      | d # t \<Rightarrow>
          if d = cu CHR ''}'' then Some (JObj [], t)
          else map_option (\<lambda>(kvs, u). (JObj (properties kvs), u)) (members r))"

text \<open>After an element \<open>v\<close>: a comma and more elements, or the closing bracket.\<close>

definition parse_elements_tail :: "(jstring \<Rightarrow> (json list \<times> jstring) option) \<Rightarrow> json \<Rightarrow> jstring \<Rightarrow> (json list \<times> jstring) option" where
  "parse_elements_tail elements v t =
     (case dropWhile json_ws t of
        [] \<Rightarrow> None
      | c # u \<Rightarrow>
          if c = cu CHR '','' then map_option (\<lambda>(vs, w). (v # vs, w)) (elements u)
          else if c = cu CHR '']'' then Some ([v], u)
          else None)"

text \<open>The key of a member and its colon; the result is the key and the text after the colon.\<close>

definition parse_member_key :: "jstring \<Rightarrow> (jstring \<times> jstring) option" where
  "parse_member_key s =
     (case dropWhile json_ws s of
        [] \<Rightarrow> None
      | q # r \<Rightarrow>
          if q = cu (CHR 0x22) then
            (case parse_string_body r of
               None \<Rightarrow> None
             | Some (k, t) \<Rightarrow>
                 (case dropWhile json_ws t of
                    [] \<Rightarrow> None
                  | c # u \<Rightarrow> if c = cu CHR '':'' then Some (k, u) else None))
          else None)"

text \<open>After a member \<open>(k, v)\<close>: a comma and more members, or the closing brace.\<close>

definition parse_members_tail :: "(jstring \<Rightarrow> ((jstring \<times> json) list \<times> jstring) option) \<Rightarrow> jstring \<Rightarrow> json \<Rightarrow> jstring \<Rightarrow> ((jstring \<times> json) list \<times> jstring) option" where
  "parse_members_tail members k v w =
     (case dropWhile json_ws w of
        [] \<Rightarrow> None
      | d # x \<Rightarrow>
          if d = cu CHR '','' then map_option (\<lambda>(kvs, y). ((k, v) # kvs, y)) (members x)
          else if d = cu CHR ''}'' then Some ([(k, v)], x)
          else None)"

text \<open>
  The recursive descent over values. The first argument bounds the number of nested
  calls; each call that goes deeper has read at least one code unit, so the length of
  the text is enough (lemma \<open>JSON_parse_fuel\<close> below).
\<close>

fun parse_value :: "nat \<Rightarrow> jstring \<Rightarrow> (json \<times> jstring) option"
  and parse_elements :: "nat \<Rightarrow> jstring \<Rightarrow> (json list \<times> jstring) option"
  and parse_members :: "nat \<Rightarrow> jstring \<Rightarrow> ((jstring \<times> json) list \<times> jstring) option"
where
  "parse_value 0 s = None"
| "parse_value (Suc n) s =
     (case dropWhile json_ws s of
        [] \<Rightarrow> None
      | c # r \<Rightarrow>
          if c = cu CHR ''{'' then parse_object (parse_members n) r
          else if c = cu CHR ''['' then parse_array (parse_elements n) r
          else parse_scalar (c # r))"
| "parse_elements 0 s = None"
| "parse_elements (Suc n) s =
     (case parse_value n s of
        None \<Rightarrow> None
      | Some (v, t) \<Rightarrow> parse_elements_tail (parse_elements n) v t)"
| "parse_members 0 s = None"
| "parse_members (Suc n) s =
     (case parse_member_key s of
        None \<Rightarrow> None
      | Some (k, u) \<Rightarrow>
          (case parse_value n u of
             None \<Rightarrow> None
           | Some (v, w) \<Rightarrow> parse_members_tail (parse_members n) k v w))"

text \<open>\<open>JSON.parse(text)\<close>: \<open>None\<close> is the \<open>SyntaxError\<close> it throws.\<close>

definition JSON_parse :: "jstring \<Rightarrow> json option" where
  "JSON_parse s =
     (case parse_value (Suc (length s)) s of
        None \<Rightarrow> None
      | Some (v, t) \<Rightarrow> if dropWhile json_ws t = [] then Some v else None)"

section \<open>Recommendation records\<close>

text \<open>
  \<open>RoleRecommendation\<close> is the object with the four fields of the interface of that
  name; \<open>defaultRecommendations\<close> is the constant of \<open>lib/azure-recommendations.ts\<close>.
\<close>

definition RoleRecommendation :: "string \<Rightarrow> string \<Rightarrow> string \<Rightarrow> string \<Rightarrow> json" where
  "RoleRecommendation t d p q =
     JObj [(js ''role_title'', JStr (js t)), (js ''description'', JStr (js d)),
           (js ''why_it_fits_professionally'', JStr (js p)),
           (js ''why_it_fits_personally'', JStr (js q))]"

definition defaultRecommendations :: "json list" where
  "defaultRecommendations =
    [
     RoleRecommendation
       (''Software Developer'')
       (''Software developers create applications and systems that run on '' @
        ''computers and other devices. They design, code, test, and maintain '' @
        ''software solutions for various problems and needs.'')
       (''Your technical skills and problem-solving abilities would make you a '' @
        ''strong candidate for software development roles. Your experience with '' @
        ''analytical thinking aligns well with the core competencies needed.'')
       (''Your interest in creating solutions and solving complex problems makes '' @
        ''software development a fulfilling career path that matches your '' @
        ''personal interests.''),
     RoleRecommendation
       (''Data Analyst'')
       (''Data analysts examine datasets to identify trends and draw '' @
        ''conclusions. They present findings to help organizations make better '' @
        ''business decisions.'')
       (''Your analytical thinking skills and attention to detail would serve '' @
        ''you well as a data analyst. This role leverages your abilities to find '' @
        ''patterns and insights in complex information.'')
       (''Your curiosity and interest in uncovering insights from information '' @
        ''makes data analysis a personally satisfying career that aligns with '' @
        ''your values.''),
     RoleRecommendation
       (''Product Manager'')
       (''Product managers oversee the development of products from conception '' @
        ''to launch. They define product strategy, gather requirements, and '' @
        ''coordinate with different teams to ensure successful delivery.'')
       (''Your combination of technical understanding and strategic planning '' @
        ''abilities makes product management a good professional fit. This role '' @
        ''utilizes both your analytical and communication skills.'')
       (''Your interest in both the business and technical aspects of products, '' @
        ''along with your desire to create meaningful solutions, aligns well '' @
        ''with product management.'')
    ]"

text \<open>
  \<open>rec.role_title\<close> and the three other reads of the insertion loop. Reading a
  property of \<open>null\<close> throws a \<open>TypeError\<close> (\<open>None\<close>); an object gives its property of
  that name or \<open>undefined\<close>; a number, string, boolean or array has no property of
  any of the four names, so the read gives \<open>undefined\<close>. The result \<open>Some None\<close> is
  \<open>undefined\<close>.
\<close>

fun field :: "json \<Rightarrow> jstring \<Rightarrow> json option option" where
  "field JNull k = None"
| "field (JObj kvs) k = Some (map_of kvs k)"
| "field v k = Some None"

text \<open>
  \<open>Array.isArray\<close> and \<open>typeof v === 'object'\<close>. In JavaScript \<open>typeof null\<close> is
  \<open>'object'\<close>.
\<close>

fun isArray :: "json \<Rightarrow> bool" where
  "isArray (JArr vs) = True"
| "isArray v = False"

fun typeof_object :: "json \<Rightarrow> bool" where
  "typeof_object JNull = True"
| "typeof_object (JArr vs) = True"
| "typeof_object (JObj kvs) = True"
| "typeof_object v = False"


section \<open>The parsing block\<close>

text \<open>
  The block that \<open>app/api/recommendations/route.ts\<close> (lines 186 to 212) and
  \<open>generateRoleRecommendations\<close> (lines 168 to 196) share, up to the insertion loop:
  repair, \<open>JSON.parse\<close>, then
  \<^verbatim>\<open>if (!Array.isArray(roleRecommendations)) {
    if (typeof roleRecommendations === 'object') {
      roleRecommendations = [roleRecommendations];
    } else {
      throw new Error("Response is not an array or object");
    }
  }\<close>
\<close>

datatype parse_error = SyntaxError | NotArrayOrObject

definition parseRoleRecommendations :: "jstring \<Rightarrow> parse_error + json list" where
  "parseRoleRecommendations responseContent =
     (case JSON_parse (repair responseContent) of
        None \<Rightarrow> Inl SyntaxError
      | Some roleRecommendations \<Rightarrow>
          (case roleRecommendations of
             JArr recs \<Rightarrow> Inr recs
           | _ \<Rightarrow>
               if typeof_object roleRecommendations then Inr [roleRecommendations]
               else Inl NotArrayOrObject))"

section \<open>The services the pipeline calls\<close>

record category =
  selected :: "string list"
  additional_info :: string

record discovery =
  skills :: category
  interests :: category
  values_sel :: category

record profile_row =
  discovery_data :: "discovery option"
  resume_link :: "string option"

record stored_row =
  user_id :: string
  created_at :: nat
  role_title :: json
  description :: json
  why_it_fits_professionally :: json
  why_it_fits_personally :: json

datatype ocr_response = OcrUnreachable | OcrNotOk string | OcrPages "string list"

datatype completion_response =
    CompletionThrows
  | CompletionNoBody
  | CompletionNoContent
  | CompletionContent jstring

text \<open>
  What the outside world answers during one run.
  \<^item> \<open>profiles uid\<close>: the row of \<open>profiles\<close> with that id, \<open>None\<close> when the query answers
    with an error (\<open>.single()\<close> does so when there is no row).
  \<^item> \<open>ocr url\<close>: the answer of the OCR endpoint for that document.
  \<^item> \<open>completion d text\<close>: the answer of the completion endpoint to the prompt built
    from the discovery data \<open>d\<close> and the resume text: the call throws, the response
    has no body, the body has no \<open>choices[0].message.content\<close> text, or the text.
  \<^item> \<open>insert_fails k\<close>: the \<open>k\<close>-th insert of the run is answered with an error (the
    client library returns the error, it does not throw).
  \<^item> \<open>role_recommendations\<close>: the rows of that table; \<open>select_fails\<close>: the query on it
    answers with an error.
  \<^item> \<open>api_unreachable\<close>: \<open>fetch('/api/recommendations')\<close> throws.
\<close>

record services =
  profiles :: "string \<Rightarrow> profile_row option"
  mistralApiKey :: string
  ocr :: "string \<Rightarrow> ocr_response"
  completion :: "discovery \<Rightarrow> string \<Rightarrow> completion_response"
  insert_fails :: "nat \<Rightarrow> bool"
  role_recommendations :: "stored_row list"
  select_fails :: bool
  api_unreachable :: bool

record request =
  userId :: "string option"
  resumeUrl :: "string option"

text \<open>
  The calls a run makes, in order. An insert carries the row sent (\<open>None\<close> is a field
  that is \<open>undefined\<close>) and whether the store answered with an error.
\<close>

datatype event =
    ProfileSelect string
  | OcrRequest string
  | ResumeTextUpdate string string
  | CompletionCall discovery string
  | RecommendationInsert string "json option" "json option" "json option" "json option" bool
  | RecommendationSelect string
  | ApiPost request

datatype response =
    Response200 "json list"
  | Response400 string
  | Response500 string "json list"

text \<open>\<open>!v\<close> is false for a string that is present and not empty.\<close>

definition truthy :: "string option \<Rightarrow> bool" where
  "truthy v = (case v of None \<Rightarrow> False | Some s \<Rightarrow> s \<noteq> [])"

section \<open>Text extraction: \<open>lib/resume-extractor.ts\<close>\<close>

text \<open>
  The loop \<^verbatim>\<open>for (const page of data.pages) markdownContent += page.markdown + '\n\n'\<close>
  with the accumulator explicit.
\<close>

fun combine_pages :: "string \<Rightarrow> string list \<Rightarrow> string" where
  "combine_pages markdownContent [] = markdownContent"
| "combine_pages markdownContent (page # pages) =
     combine_pages (markdownContent @ page @ newline @ newline) pages"

text \<open>\<open>Inl\<close> is the message of the error thrown.\<close>

definition extractResumeText :: "services \<Rightarrow> string \<Rightarrow> string \<Rightarrow> (string + string) \<times> event list" where
  "extractResumeText env documentUrl apiKey =
     (if documentUrl = [] then (Inl ''Document URL is required'', [])
      else if apiKey = [] then (Inl ''Mistral API key is required'', [])
      else
        (case ocr env documentUrl of
           OcrUnreachable \<Rightarrow> (Inl ''fetch failed'', [OcrRequest documentUrl])
         | OcrNotOk msg \<Rightarrow> (Inl (''OCR extraction failed: '' @ msg), [OcrRequest documentUrl])
         | OcrPages pages \<Rightarrow> (Inr (combine_pages [] pages), [OcrRequest documentUrl])))"

section \<open>The route handler: \<open>app/api/recommendations/route.ts\<close>\<close>

text \<open>
  The extraction step (lines 66 to 83): with a resume URL, the text is extracted and,
  when it is not empty, written to the profile; an error of the extraction leaves
  the text empty.
\<close>

definition extraction :: "services \<Rightarrow> string \<Rightarrow> string option \<Rightarrow> string \<times> event list" where
  "extraction env uid url =
     (case url of
        None \<Rightarrow> ([], [])
      | Some u \<Rightarrow>
          if u = [] then ([], [])
          else
            (case extractResumeText env u (mistralApiKey env) of
               (Inl err, evs) \<Rightarrow> ([], evs)
             | (Inr resumeText, evs) \<Rightarrow>
                 if resumeText \<noteq> [] then (resumeText, evs @ [ResumeTextUpdate uid resumeText])
                 else (resumeText, evs)))"

text \<open>
  \<open>formattedData\<close> (lines 92 to 112): the three categories of the discovery data,
  empty ones when there is none.
\<close>

definition empty_category :: category where
  "empty_category = \<lparr>selected = [], additional_info = []\<rparr>"

definition formattedData :: "discovery option \<Rightarrow> discovery" where
  "formattedData discoveryData =
     (case discoveryData of
        None \<Rightarrow> \<lparr>skills = empty_category, interests = empty_category, values_sel = empty_category\<rparr>
      | Some d \<Rightarrow> d)"

text \<open>
  The insertion loop (lines 215 to 223). \<open>insert_row\<close> is the object passed to
  \<open>insert\<close>: the four property reads come before the call, so a \<open>null\<close> element
  throws before its insert and ends the loop; the second component of
  \<open>store_recommendations\<close> is \<open>False\<close> then. The answer of an insert is not looked at.
\<close>

definition insert_row :: "string \<Rightarrow> json \<Rightarrow> (bool \<Rightarrow> event) option" where
  "insert_row uid rec =
     (case (field rec (js ''role_title''), field rec (js ''description''),
            field rec (js ''why_it_fits_professionally''),
            field rec (js ''why_it_fits_personally'')) of
        (Some t, Some d, Some p, Some q) \<Rightarrow> Some (RecommendationInsert uid t d p q)
      | _ \<Rightarrow> None)"

fun store_recommendations :: "services \<Rightarrow> string \<Rightarrow> nat \<Rightarrow> json list \<Rightarrow> event list \<times> bool" where
  "store_recommendations env uid k [] = ([], True)"
| "store_recommendations env uid k (rec # recs) =
     (case insert_row uid rec of
        None \<Rightarrow> ([], False)
      | Some ins \<Rightarrow>
          (let (evs, completed) = store_recommendations env uid (Suc k) recs
           in (ins (insert_fails env k) # evs, completed)))"

text \<open>
  The generation step (lines 163 to 236): the call of the completion endpoint, the
  parsing block and the insertion loop, inside the two \<open>try\<close> blocks. Every \<open>catch\<close>
  sets \<open>roleRecommendations = defaultRecommendations\<close>.
\<close>

definition generation :: "services \<Rightarrow> string \<Rightarrow> discovery option \<Rightarrow> string \<Rightarrow> json list \<times> event list" where
  "generation env uid discoveryData resumeText =
     (let call = CompletionCall (formattedData discoveryData) resumeText
      in case completion env (formattedData discoveryData) resumeText of
           CompletionThrows \<Rightarrow> (defaultRecommendations, [call])
         | CompletionNoBody \<Rightarrow> (defaultRecommendations, [call])
         | CompletionNoContent \<Rightarrow> (defaultRecommendations, [call])
         | CompletionContent responseContent \<Rightarrow>
             (case parseRoleRecommendations responseContent of
                Inl err \<Rightarrow> (defaultRecommendations, [call])
              | Inr roleRecommendations \<Rightarrow>
                  (case store_recommendations env uid 0 roleRecommendations of
                     (evs, True) \<Rightarrow> (roleRecommendations, call # evs)
                   | (evs, False) \<Rightarrow> (defaultRecommendations, call # evs))))"

text \<open>
  \<open>generateRoleRecommendations\<close> of \<open>lib/azure-recommendations.ts\<close>. Line 3 of that file
  imports the client by name, \<^verbatim>\<open>import { ModelClient } from '@azure-rest/ai-inference'\<close>,
  where \<open>route.ts\<close> imports the default export of the same package. The package exports
  its client factory as the default export; among its named exports \<open>ModelClient\<close> is
  only an interface, which has no value when the program runs. The name is bound to
  \<open>undefined\<close>, so \<^verbatim>\<open>new ModelClient(...)\<close> of line 77, the first statement of the outer
  \<open>try\<close>, throws a \<open>TypeError\<close>: this is the \<open>None\<close> of \<open>new_ModelClient\<close>.
\<close>

definition new_ModelClient :: "unit option" where
  "new_ModelClient = None"

text \<open>
  The body of the function: the construction of the client, then the same prompt, the
  same call and the same parsing block as the route, without the insertion loop. The
  \<open>catch\<close> of line 204 returns the defaults for whatever the outer \<open>try\<close> throws.
\<close>

definition generateRoleRecommendations :: "services \<Rightarrow> discovery option \<Rightarrow> string \<Rightarrow> json list \<times> event list" where
  "generateRoleRecommendations env discoveryData resumeText =
     (case new_ModelClient of
        None \<Rightarrow> (defaultRecommendations, [])
      | Some client \<Rightarrow>
          (let call = CompletionCall (formattedData discoveryData) resumeText
           in case completion env (formattedData discoveryData) resumeText of
                CompletionThrows \<Rightarrow> (defaultRecommendations, [call])
              | CompletionNoBody \<Rightarrow> (defaultRecommendations, [call])
              | CompletionNoContent \<Rightarrow> (defaultRecommendations, [call])
              | CompletionContent responseContent \<Rightarrow>
                  (case parseRoleRecommendations responseContent of
                     Inl err \<Rightarrow> (defaultRecommendations, [call])
                   | Inr roleRecommendations \<Rightarrow> (roleRecommendations, [call]))))"

text \<open>
  \<open>POST\<close>. The request body is destructured into constants,
  \<^verbatim>\<open>const { userId, resumeUrl } = await request.json()\<close>, so the assignment
  \<^verbatim>\<open>resumeUrl = profileData.resume_link\<close> of line 61 throws a \<open>TypeError\<close> when it is
  reached (no URL in the request, a link on the profile), and the outer \<open>catch\<close>
  answers with status 500 and the defaults.
\<close>

definition POST :: "services \<Rightarrow> request \<Rightarrow> response \<times> event list" where
  "POST env req =
     (if \<not> truthy (userId req) then (Response400 ''Missing userId in request'', [])
      else
        (let uid = the (userId req);
             profileData = profiles env uid
         in if profileData \<noteq> None \<and> \<not> truthy (resumeUrl req) \<and> truthy (resume_link (the profileData))
            then (Response500 ''Server error'' defaultRecommendations, [ProfileSelect uid])
            else
              (let discoveryData = (case profileData of None \<Rightarrow> None | Some pd \<Rightarrow> discovery_data pd);
                   (resumeText, evs1) = extraction env uid (resumeUrl req)
               in if discoveryData = None \<and> resumeText = []
                  then (Response200 defaultRecommendations, ProfileSelect uid # evs1)
                  else
                    (let (roleRecommendations, evs2) = generation env uid discoveryData resumeText
                     in (Response200 roleRecommendations, ProfileSelect uid # evs1 @ evs2)))))"

section \<open>The client: \<open>lib/recommendation-service.ts\<close>\<close>

text \<open>
  \<open>generateRecommendations\<close> posts to the route; a response that is not \<open>ok\<close> and a
  failed \<open>fetch\<close> both end in the \<open>catch\<close>, which returns the defaults.
\<close>

definition generateRecommendations :: "services \<Rightarrow> string option \<Rightarrow> string option \<Rightarrow> json list \<times> event list" where
  "generateRecommendations env uid url =
     (let req = \<lparr>userId = uid, resumeUrl = url\<rparr>
      in if api_unreachable env then (defaultRecommendations, [ApiPost req])
         else
           (case POST env req of
              (Response200 recs, evs) \<Rightarrow> (recs, ApiPost req # evs)
            | (Response400 err, evs) \<Rightarrow> (defaultRecommendations, ApiPost req # evs)
            | (Response500 err recs, evs) \<Rightarrow> (defaultRecommendations, ApiPost req # evs)))"

text \<open>
  The query of the cache check:
  \<^verbatim>\<open>.eq("user_id", userId).order("created_at", { ascending: false }).limit(3)\<close>.
  \<open>None\<close> is an answer with an error.
\<close>

definition select_recent :: "services \<Rightarrow> string \<Rightarrow> stored_row list option" where
  "select_recent env uid =
     (if select_fails env then None
      else Some (take 3 (rev (sort_key created_at
                   (filter (\<lambda>r. user_id r = uid) (role_recommendations env))))))"

definition to_recommendation :: "stored_row \<Rightarrow> json" where
  "to_recommendation item =
     JObj [(js ''role_title'', role_title item), (js ''description'', description item),
           (js ''why_it_fits_professionally'', why_it_fits_professionally item),
           (js ''why_it_fits_personally'', why_it_fits_personally item)]"

definition getRecommendations :: "services \<Rightarrow> string option \<Rightarrow> bool \<Rightarrow> json list \<times> event list" where
  "getRecommendations env uid forceRefresh =
     (if \<not> truthy uid then (defaultRecommendations, [])
      else
        (let u = the uid;
             (existing, evs1) =
               (if \<not> forceRefresh then
                  (case select_recent env u of
                     None \<Rightarrow> (None, [RecommendationSelect u])
                   | Some existingData \<Rightarrow>
                       if existingData \<noteq> [] then (Some existingData, [RecommendationSelect u])
                       else (None, [RecommendationSelect u]))
                else (None, []))
         in case existing of
              Some existingData \<Rightarrow> (map to_recommendation existingData, evs1)
            | None \<Rightarrow>
                (let profile = profiles env u;
                     (recs, evs2) = generateRecommendations env uid
                                      (case profile of None \<Rightarrow> None | Some pr \<Rightarrow> resume_link pr)
                 in (recs, evs1 @ ProfileSelect u # evs2))))"

section \<open>Observations on a run\<close>

definition stored_discovery :: "services \<Rightarrow> string \<Rightarrow> discovery option" where
  "stored_discovery env uid = (case profiles env uid of None \<Rightarrow> None | Some pd \<Rightarrow> discovery_data pd)"

text \<open>The \<open>recommendations\<close> member of a response body, when it has one.\<close>

fun recommendations_of :: "response \<Rightarrow> json list option" where
  "recommendations_of (Response200 recs) = Some recs"
| "recommendations_of (Response400 err) = None"
| "recommendations_of (Response500 err recs) = Some recs"

fun is_completion_call :: "event \<Rightarrow> bool" where
  "is_completion_call (CompletionCall d t) = True"
| "is_completion_call ev = False"

fun is_insert :: "event \<Rightarrow> bool" where
  "is_insert (RecommendationInsert u t d p q b) = True"
| "is_insert ev = False"


text \<open>
  A record as the interface \<open>RoleRecommendation\<close> declares it: the four fields are
  present and are strings.
\<close>

definition is_string :: "json option \<Rightarrow> bool" where
  "is_string v = (case v of Some (JStr s) \<Rightarrow> True | _ \<Rightarrow> False)"

definition well_formed_record :: "json \<Rightarrow> bool" where
  "well_formed_record rec =
     (case rec of
        JObj kvs \<Rightarrow>
          is_string (map_of kvs (js ''role_title'')) \<and>
          is_string (map_of kvs (js ''description'')) \<and>
          is_string (map_of kvs (js ''why_it_fits_professionally'')) \<and>
          is_string (map_of kvs (js ''why_it_fits_personally''))
      | _ \<Rightarrow> False)"

section \<open>The resume upload: \<open>components/discovery/resume-upload.tsx\<close>\<close>

record resume_file =
  file_name :: string
  file_size :: nat
  file_type :: string

text \<open>
  The two storage paths: \<^verbatim>\<open>`${user.id}/${Date.now()}.${fileExt}`\<close> and
  \<^verbatim>\<open>`${user.id}/.placeholder`\<close>.
\<close>

datatype storage_path = ResumePath string nat string | PlaceholderPath string

datatype upload_event =
    Upload storage_path
  | Remove storage_path
  | CreateSignedUrl storage_path
  | ResumeLinkUpdate string string
  | Toast string

datatype provisioning = Provisioned | PlaceholderUploadThrows | PlaceholderRemoveThrows

text \<open>
  What the storage service answers to the \<open>k\<close>-th call of \<open>uploadFile\<close> (the first
  call is number 0):
  \<^item> \<open>now k\<close>: the value of \<open>Date.now()\<close>;
  \<^item> \<open>upload_error k\<close>: the message of the error of the upload, \<open>None\<close> when it succeeds;
  \<^item> \<open>signed_url k\<close>: the signed URL, or the message of the error (\<open>Inl\<close>);
  \<^item> \<open>provision k\<close>: whether the upload or the removal of the placeholder throws.
\<close>

record storage =
  now :: "nat \<Rightarrow> nat"
  upload_error :: "nat \<Rightarrow> string option"
  signed_url :: "nat \<Rightarrow> string + string"
  provision :: "nat \<Rightarrow> provisioning"

text \<open>\<open>file.name.split(".").pop()\<close>: the text after the last dot, the whole name without one.\<close>

definition fileExt :: "string \<Rightarrow> string" where
  "fileExt name = rev (takeWhile (\<lambda>c. c \<noteq> CHR ''.'') (rev name))"

text \<open>
  The \<open>try\<close> block of \<open>uploadFile\<close> (lines 69 to 119): \<open>Inl\<close> is the message of the error
  thrown, with the calls made before it.
\<close>

definition try_upload :: "storage \<Rightarrow> string \<Rightarrow> storage_path \<Rightarrow> nat \<Rightarrow> (string \<times> upload_event list) + (string \<times> upload_event list)" where
  "try_upload env uid filePath k =
     (case upload_error env k of
        Some msg \<Rightarrow> Inl (msg, [Upload filePath])
      | None \<Rightarrow>
          (case signed_url env k of
             Inl msg \<Rightarrow> Inl (msg, [Upload filePath, CreateSignedUrl filePath])
           | Inr url \<Rightarrow>
               Inr (url,
                    [Upload filePath, CreateSignedUrl filePath, ResumeLinkUpdate uid url,
                     Toast ''Resume uploaded''])))"

datatype upload_result = SignedUrl string | Null | Rejected

text \<open>
  \<open>uploadFile\<close>. The \<open>catch\<close> block (lines 120 to 152) calls \<open>uploadFile(file)\<close> again
  after it has provisioned the folder; nothing counts the calls, so the function may
  not return: \<open>None\<close> is a run that never does. The fourth argument is the number of
  the call, the fifth the calls made so far.
\<close>

partial_function (option) uploadFile ::
  "storage \<Rightarrow> string option \<Rightarrow> resume_file \<Rightarrow> nat \<Rightarrow> upload_event list \<Rightarrow> (upload_result \<times> upload_event list) option"
where
  "uploadFile env user f k trace =
     (case user of
        None \<Rightarrow> Some (Null, trace @ [Toast ''Authentication required''])
      | Some uid \<Rightarrow>
          (case try_upload env uid (ResumePath uid (now env k) (fileExt (file_name f))) k of
             Inr (url, evs) \<Rightarrow> Some (SignedUrl url, trace @ evs)
           | Inl (msg, evs) \<Rightarrow>
               if includes_str msg ''The resource was not found'' then
                 (case provision env k of
                    PlaceholderUploadThrows \<Rightarrow>
                      Some (Rejected, trace @ evs @ [Upload (PlaceholderPath uid)])
                  | PlaceholderRemoveThrows \<Rightarrow>
                      Some (Rejected, trace @ evs @ [Upload (PlaceholderPath uid), Remove (PlaceholderPath uid)])
                  | Provisioned \<Rightarrow>
                      uploadFile env user f (Suc k)
                        (trace @ evs @ [Upload (PlaceholderPath uid), Remove (PlaceholderPath uid)]))
               else Some (Null, trace @ evs @ [Toast ''Upload failed''])))"

definition validTypes :: "string list" where
  "validTypes =
     [''application/pdf'',
      ''application/vnd.openxmlformats-officedocument.wordprocessingml.document'']"

text \<open>
  \<open>handleFileChange\<close> (lines 22 to 54) and the \<open>onDrop\<close> handler (lines 165 to 203)
  make the same two checks and then start the upload; the result is the list of the
  calls made, \<open>None\<close> when the upload never returns.
\<close>

definition handleFileChange :: "storage \<Rightarrow> string option \<Rightarrow> resume_file option \<Rightarrow> upload_event list option" where
  "handleFileChange env user files0 =
     (case files0 of
        None \<Rightarrow> Some []
      | Some f \<Rightarrow>
          if file_size f > 5 * 1024 * 1024 then Some [Toast ''File too large'']
          else if file_type f \<notin> set validTypes then Some [Toast ''Invalid file type'']
          else map_option snd (uploadFile env user f 0 []))"

definition onDrop :: "storage \<Rightarrow> string option \<Rightarrow> resume_file option \<Rightarrow> upload_event list option" where
  "onDrop env user files0 =
     (case files0 of
        None \<Rightarrow> Some []
      | Some f \<Rightarrow>
          if file_size f > 5 * 1024 * 1024 then Some [Toast ''File too large'']
          else if file_type f \<notin> set validTypes then Some [Toast ''Invalid file type'']
          else map_option snd (uploadFile env user f 0 []))"

fun is_storage_call :: "upload_event \<Rightarrow> bool" where
  "is_storage_call (Toast msg) = False"
| "is_storage_call ev = True"

section \<open>Concrete runs\<close>

text \<open>
  A user \<open>u1\<close> with discovery data, no resume, and four stored recommendations; the
  completion endpoint answers every prompt with the text given.
\<close>

definition demo_discovery :: discovery where
  "demo_discovery =
     \<lparr>skills = \<lparr>selected = [''Python''], additional_info = []\<rparr>,
      interests = \<lparr>selected = [''Data''], additional_info = []\<rparr>,
      values_sel = \<lparr>selected = [''Autonomy''], additional_info = []\<rparr>\<rparr>"

definition demo_row :: "nat \<Rightarrow> string \<Rightarrow> stored_row" where
  "demo_row t title =
     \<lparr>user_id = ''u1'', created_at = t, role_title = JStr (js title), description = JStr (js ''d''),
      why_it_fits_professionally = JStr (js ''p''), why_it_fits_personally = JStr (js ''q'')\<rparr>"

definition demo_services :: "jstring \<Rightarrow> services" where
  "demo_services content =
     \<lparr>profiles = (\<lambda>u. if u = ''u1''
                        then Some \<lparr>discovery_data = Some demo_discovery, resume_link = None\<rparr>
                        else None),
      mistralApiKey = ''key'',
      ocr = (\<lambda>u. OcrPages [''A'']),
      completion = (\<lambda>d t. CompletionContent content),
      insert_fails = (\<lambda>k. False),
      role_recommendations = [demo_row 1 ''a'', demo_row 4 ''b'', demo_row 2 ''c'', demo_row 3 ''e''],
      select_fails = False,
      api_unreachable = False\<rparr>"

definition demo_request :: request where
  "demo_request = \<lparr>userId = Some ''u1'', resumeUrl = None\<rparr>"

definition empty_discovery :: discovery where
  "empty_discovery =
     \<lparr>skills = empty_category, interests = empty_category, values_sel = empty_category\<rparr>"

definition demo_content :: jstring where
  \<open>demo_content = js ''[{"role_title": "X"}]''\<close>


text \<open>The same user with discovery data whose selections are all empty.\<close>

definition empty_selection_services :: services where
  "empty_selection_services =
     (demo_services demo_content)
       \<lparr>profiles := (\<lambda>u. Some \<lparr>discovery_data = Some empty_discovery, resume_link = None\<rparr>)\<rparr>"

text \<open>
  Pages joined with a blank line between adjacent pages and nothing after the last
  one: the wording "each page's markdown content, in page order, separated by a blank
  line", for the comparison with \<open>combine_pages\<close>.
\<close>

fun join_pages :: "string list \<Rightarrow> string" where
  "join_pages [] = []"
| "join_pages [page] = page"
| "join_pages (page # next_page # pages) =
     page @ newline @ newline @ join_pages (next_page # pages)"

section \<open>The balanced span\<close>

text \<open>
  The span that the wording "the first syntactically balanced array-of-objects span,
  via a conservative bracket match" describes, for the comparison with
  \<open>jsonArrayMatch\<close>: it starts at the first \<open>[\<close> that \<open>{\<close> follows after white space,
  and ends at the \<open>]\<close> that closes this bracket, the square brackets in between
  being counted. \<open>closing_bracket d s\<close> is the number of code units of \<open>s\<close> up to that
  \<open>]\<close>, when \<open>d\<close> more brackets are open.
\<close>

fun closing_bracket :: "nat \<Rightarrow> jstring \<Rightarrow> nat option" where
  "closing_bracket d [] = None"
| "closing_bracket d (c # cs) =
     (if c = cu CHR ''['' then map_option Suc (closing_bracket (Suc d) cs)
      else if c = cu CHR '']'' then
        (case d of 0 \<Rightarrow> Some 1 | Suc d' \<Rightarrow> map_option Suc (closing_bracket d' cs))
      else map_option Suc (closing_bracket d cs))"

fun balanced_span :: "jstring \<Rightarrow> jstring option" where
  "balanced_span [] = None"
| "balanced_span (c # cs) =
     (case open_at (c # cs) of
        Some k \<Rightarrow> map_option (\<lambda>n. take (Suc n) (c # cs)) (closing_bracket 0 cs)
      | None \<Rightarrow> balanced_span cs)"

definition two_arrays :: jstring where
  \<open>two_arrays = js ''[{"role_title": "A"}] or else [{"role_title": "B"}]''\<close>

section \<open>Observations on an upload\<close>

text \<open>
  \<open>fails_not_found env uid f k\<close>: the \<open>try\<close> block of call \<open>k\<close> throws an error whose
  message contains \<open>The resource was not found\<close>, the test of the \<open>catch\<close> block.
  \<open>settled env uid f k\<close> is what a call returns whose \<open>try\<close> block does not fail that
  way: the signed URL, or \<open>null\<close> after the toast \<open>Upload failed\<close>.
\<close>

definition fails_not_found :: "storage \<Rightarrow> string \<Rightarrow> resume_file \<Rightarrow> nat \<Rightarrow> bool" where
  "fails_not_found env uid f k =
     (case try_upload env uid (ResumePath uid (now env k) (fileExt (file_name f))) k of
        Inl (msg, evs) \<Rightarrow> includes_str msg ''The resource was not found''
      | Inr r \<Rightarrow> False)"

definition settled :: "storage \<Rightarrow> string \<Rightarrow> resume_file \<Rightarrow> nat \<Rightarrow> upload_result" where
  "settled env uid f k =
     (case try_upload env uid (ResumePath uid (now env k) (fileExt (file_name f))) k of
        Inl e \<Rightarrow> Null
      | Inr (url, evs) \<Rightarrow> SignedUrl url)"

fun is_resume_upload :: "upload_event \<Rightarrow> bool" where
  "is_resume_upload (Upload (ResumePath u t e)) = True"
| "is_resume_upload ev = False"

fun is_placeholder_upload :: "upload_event \<Rightarrow> bool" where
  "is_placeholder_upload (Upload (PlaceholderPath u)) = True"
| "is_placeholder_upload ev = False"

text \<open>
  A storage service whose first \<open>n\<close> uploads fail with the message of a missing
  folder, and one whose uploads all fail that way.
\<close>

definition not_found_times :: "nat \<Rightarrow> storage" where
  "not_found_times n =
     \<lparr>now = (\<lambda>k. 1000 + k),
      upload_error = (\<lambda>k. if k < n then Some ''The resource was not found'' else None),
      signed_url = (\<lambda>k. Inr ''https://signed''),
      provision = (\<lambda>k. Provisioned)\<rparr>"

definition always_not_found :: storage where
  "always_not_found =
     \<lparr>now = (\<lambda>k. 1000 + k),
      upload_error = (\<lambda>k. Some ''The resource was not found''),
      signed_url = (\<lambda>k. Inr ''https://signed''),
      provision = (\<lambda>k. Provisioned)\<rparr>"

definition demo_file :: resume_file where
  "demo_file = \<lparr>file_name = ''cv.pdf'', file_size = 1000, file_type = ''application/pdf''\<rparr>"

section \<open>Code units\<close>

lemma unat_cu: "unat (cu c) = of_char c"
proof -
  have "(of_char c :: nat) < 65536" using nat_of_char_less_256[of c] by linarith
  then show ?thesis unfolding cu_def by (simp add: unat_of_nat)
qed

lemma cu_inject [simp]: "cu a = cu b \<longleftrightarrow> a = b"
proof
  assume "cu a = cu b"
  then have "unat (cu a) = unat (cu b)" by simp
  then show "a = b" unfolding unat_cu by simp
qed simp

lemma js_inject [simp]: "js a = js b \<longleftrightarrow> a = b"
proof -
  have "inj cu" by (rule injI) simp
  then show ?thesis by (simp add: js_def inj_map_eq_map)
qed

section \<open>The fuel of the parser is enough\<close>

text \<open>
  A parse that succeeds with some bound on the nesting succeeds, with the same result,
  with every bound that is at least the number of characters read; so \<open>JSON_parse\<close>
  never fails for lack of fuel.
\<close>

lemma length_dropWhile_bound: "length (dropWhile P s) \<le> length s"
  by (induction s) auto

lemma dropWhile_Cons_shorter:
  "dropWhile P s = c # r \<Longrightarrow> length r < length s"
  using length_dropWhile_bound[of P s] by simp

lemma parse_string_body_shorter:
  "parse_string_body s = Some (str, t) \<Longrightarrow> length t < length s"
proof (induction s arbitrary: str t rule: parse_string_body.induct)
  case 1
  then show ?case by simp
next
  case (2 c cs)
  show ?case
  proof (cases "c = cu (CHR 0x22)")
    case True
    then show ?thesis using 2(4) by simp
  next
    case nq: False
    show ?thesis
    proof (cases "c = cu (CHR 0x5C)")
      case True
      show ?thesis
      proof (cases cs)
        case Nil
        then show ?thesis using 2(4) nq True by simp
      next
        case (Cons e r)
        show ?thesis
        proof (cases "e = cu CHR ''u''")
          case u: True
          then obtain ch where h: "hex4 r = Some ch"
            using 2(4) nq True Cons by (auto split: option.splits)
          then obtain str' where "parse_string_body (drop 4 r) = Some (str', t)"
            using 2(4) nq True Cons u by auto
          from 2(1)[OF nq True Cons u h this] show ?thesis using Cons by simp
        next
          case nu: False
          then obtain ch where h: "unescape e = Some ch"
            using 2(4) nq True Cons by (auto split: option.splits)
          then obtain str' where "parse_string_body r = Some (str', t)"
            using 2(4) nq True Cons nu by auto
          from 2(2)[OF nq True Cons nu h this] show ?thesis using Cons by simp
        qed
      qed
    next
      case nb: False
      then have nc: "\<not> c < 0x20" using 2(4) nq by (auto split: if_splits)
      then obtain str' where "parse_string_body cs = Some (str', t)"
        using 2(4) nq nb by auto
      from 2(3)[OF nq nb nc this] show ?thesis by simp
    qed
  qed
qed

lemma parse_number_shorter:
  "parse_number s = Some (lit, t) \<Longrightarrow> length t < length s"
proof -
  assume a: "parse_number s = Some (lit, t)"
  have ip: "\<And>x ip y. parse_int_part x = Some (ip, y) \<Longrightarrow> length y < length x"
    by (auto simp: parse_int_part_def split: list.splits if_splits
             intro: le_less_trans[OF length_dropWhile_bound])
  have fp: "\<And>x fp y. parse_frac x = Some (fp, y) \<Longrightarrow> length y \<le> length x"
    by (auto simp: parse_frac_def split: list.splits if_splits
             intro: le_trans[OF length_dropWhile_bound])
  have ep: "\<And>x ep y. parse_exp x = Some (ep, y) \<Longrightarrow> length y \<le> length x"
    by (auto simp: parse_exp_def split: list.splits if_splits
             intro: le_trans[OF length_dropWhile_bound])
  define s1 where "s1 = snd (case s of [] \<Rightarrow> ([], s) | c # r \<Rightarrow> if c = cu CHR ''-'' then ([c], r) else ([], s))"
  have l1: "length s1 \<le> length s" by (auto simp: s1_def split: list.splits)
  from a obtain ip s2 fp' s3 ep' where
    "parse_int_part s1 = Some (ip, s2)" "parse_frac s2 = Some (fp', s3)" "parse_exp s3 = Some (ep', t)"
    unfolding parse_number_def s1_def
    by (auto simp: case_prod_beta split: option.splits list.splits if_splits)
  then show ?thesis using ip fp ep l1 by (meson le_trans not_le)
qed

lemma parse_scalar_shorter:
  assumes "parse_scalar s = Some (v, t)"
  shows "length t < length s"
proof (cases s)
  case Nil
  then show ?thesis using assms by (simp add: parse_scalar_def)
next
  case (Cons c r)
  have "length t < length (c # r)"
    using assms unfolding parse_scalar_def Cons list.case
    by (auto split: if_splits dest: parse_string_body_shorter parse_number_shorter)
  then show ?thesis using Cons by simp
qed

lemma parse_array_fuel:
  assumes "parse_array pe r = Some (v, t)"
    and "\<And>vs. pe r = Some (vs, t) \<Longrightarrow> length t < length r \<and> pe' r = Some (vs, t)"
  shows "length t < length r \<and> parse_array pe' r = Some (v, t)"
proof (cases "dropWhile json_ws r")
  case Nil
  show ?thesis using assms(1) unfolding parse_array_def Nil by simp
next
  case (Cons d t0)
  show ?thesis
  proof (cases "d = cu CHR '']''")
    case True
    then have "v = JArr []" "t = t0" using assms(1) unfolding parse_array_def Cons by simp_all
    then show ?thesis using True dropWhile_Cons_shorter[OF Cons] unfolding parse_array_def Cons by simp
  next
    case False
    then obtain vs where vs: "pe r = Some (vs, t)" "v = JArr vs"
      using assms(1) unfolding parse_array_def Cons by auto
    then show ?thesis using assms(2)[OF vs(1)] False unfolding parse_array_def Cons by simp
  qed
qed

lemma parse_object_fuel:
  assumes "parse_object pm r = Some (v, t)"
    and "\<And>kvs. pm r = Some (kvs, t) \<Longrightarrow> length t < length r \<and> pm' r = Some (kvs, t)"
  shows "length t < length r \<and> parse_object pm' r = Some (v, t)"
proof (cases "dropWhile json_ws r")
  case Nil
  show ?thesis using assms(1) unfolding parse_object_def Nil by simp
next
  case (Cons d t0)
  show ?thesis
  proof (cases "d = cu CHR ''}''")
    case True
    then have "v = JObj []" "t = t0" using assms(1) unfolding parse_object_def Cons by simp_all
    then show ?thesis using True dropWhile_Cons_shorter[OF Cons] unfolding parse_object_def Cons by simp
  next
    case False
    then obtain kvs where kvs: "pm r = Some (kvs, t)" "v = JObj (properties kvs)"
      using assms(1) unfolding parse_object_def Cons by auto
    then show ?thesis using assms(2)[OF kvs(1)] False unfolding parse_object_def Cons by simp
  qed
qed

lemma parse_elements_tail_fuel:
  assumes "parse_elements_tail pe v t = Some (vs, w)"
    and "\<And>vs' u. length u < length t \<Longrightarrow> pe u = Some (vs', w) \<Longrightarrow>
            length w < length u \<and> pe' u = Some (vs', w)"
  shows "length w < length t \<and> parse_elements_tail pe' v t = Some (vs, w)"
proof (cases "dropWhile json_ws t")
  case Nil
  show ?thesis using assms(1) unfolding parse_elements_tail_def Nil by simp
next
  case (Cons c u)
  have lu: "length u < length t" using dropWhile_Cons_shorter[OF Cons] .
  show ?thesis
  proof (cases "c = cu CHR '',''")
    case True
    then obtain vs' where vs': "pe u = Some (vs', w)" "vs = v # vs'"
      using assms(1) unfolding parse_elements_tail_def Cons by auto
    then show ?thesis using assms(2)[OF lu vs'(1)] True lu
      unfolding parse_elements_tail_def Cons by simp
  next
    case False
    then have "c = cu CHR '']''" "vs = [v]" "w = u"
      using assms(1) unfolding parse_elements_tail_def Cons by (auto split: if_splits)
    then show ?thesis using lu unfolding parse_elements_tail_def Cons by simp
  qed
qed

lemma parse_members_tail_fuel:
  assumes "parse_members_tail pm k v t = Some (kvs, w)"
    and "\<And>kvs' u. length u < length t \<Longrightarrow> pm u = Some (kvs', w) \<Longrightarrow>
            length w < length u \<and> pm' u = Some (kvs', w)"
  shows "length w < length t \<and> parse_members_tail pm' k v t = Some (kvs, w)"
proof (cases "dropWhile json_ws t")
  case Nil
  show ?thesis using assms(1) unfolding parse_members_tail_def Nil by simp
next
  case (Cons c u)
  have lu: "length u < length t" using dropWhile_Cons_shorter[OF Cons] .
  show ?thesis
  proof (cases "c = cu CHR '',''")
    case True
    then obtain kvs' where kvs': "pm u = Some (kvs', w)" "kvs = (k, v) # kvs'"
      using assms(1) unfolding parse_members_tail_def Cons by auto
    then show ?thesis using assms(2)[OF lu kvs'(1)] True lu
      unfolding parse_members_tail_def Cons by simp
  next
    case False
    then have "c = cu CHR ''}''" "kvs = [(k, v)]" "w = u"
      using assms(1) unfolding parse_members_tail_def Cons by (auto split: if_splits)
    then show ?thesis using lu unfolding parse_members_tail_def Cons by simp
  qed
qed

lemma parse_member_key_shorter:
  assumes "parse_member_key s = Some (k, u)"
  shows "length u < length s"
proof (cases "dropWhile json_ws s")
  case Nil
  show ?thesis using assms unfolding parse_member_key_def Nil by simp
next
  case (Cons q r)
  obtain k' t where b: "parse_string_body r = Some (k', t)"
    and c: "(case dropWhile json_ws t of [] \<Rightarrow> None
             | c # u \<Rightarrow> if c = cu CHR '':'' then Some (k', u) else None) = Some (k, u)"
    using assms unfolding parse_member_key_def Cons
    by (auto split: if_splits option.splits)
  have "length u < length t"
  proof (cases "dropWhile json_ws t")
    case Nil
    show ?thesis using c unfolding Nil by simp
  next
    case c2: (Cons c' u')
    then have "u' = u" using c unfolding c2 by (auto split: if_splits)
    then show ?thesis using dropWhile_Cons_shorter[OF c2] by simp
  qed
  then show ?thesis
    using dropWhile_Cons_shorter[OF Cons] parse_string_body_shorter[OF b] by simp
qed

lemma parse_fuel:
  "(\<forall>s v t. parse_value n s = Some (v, t) \<longrightarrow>
      length t < length s \<and> (\<forall>m. length s - length t \<le> m \<longrightarrow> parse_value m s = Some (v, t)))
   \<and> (\<forall>s vs t. parse_elements n s = Some (vs, t) \<longrightarrow>
      length t < length s \<and> (\<forall>m. length s - length t \<le> m \<longrightarrow> parse_elements m s = Some (vs, t)))
   \<and> (\<forall>s kvs t. parse_members n s = Some (kvs, t) \<longrightarrow>
      length t < length s \<and> (\<forall>m. length s - length t \<le> m \<longrightarrow> parse_members m s = Some (kvs, t)))"
proof (induction n)
  case 0
  show ?case by simp
next
  case (Suc n)
  have IHv1: "length t < length s" if "parse_value n s = Some (v, t)" for s v t
    using Suc that by blast
  have IHv2: "parse_value m s = Some (v, t)"
    if "parse_value n s = Some (v, t)" "length s - length t \<le> m" for s v t m
    using Suc that by blast
  have IHe1: "length t < length s" if "parse_elements n s = Some (vs, t)" for s vs t
    using Suc that by blast
  have IHe2: "parse_elements m s = Some (vs, t)"
    if "parse_elements n s = Some (vs, t)" "length s - length t \<le> m" for s vs t m
    using Suc that by blast
  have IHm1: "length t < length s" if "parse_members n s = Some (kvs, t)" for s kvs t
    using Suc that by blast
  have IHm2: "parse_members m s = Some (kvs, t)"
    if "parse_members n s = Some (kvs, t)" "length s - length t \<le> m" for s kvs t m
    using Suc that by blast
  have V: "length t < length s \<and> (\<forall>m. length s - length t \<le> m \<longrightarrow> parse_value m s = Some (v, t))"
    if a: "parse_value (Suc n) s = Some (v, t)" for s v t
  proof (cases "dropWhile json_ws s")
    case Nil
    show ?thesis using a unfolding parse_value.simps Nil by simp
  next
    case (Cons c r)
    have lr: "length r < length s" using dropWhile_Cons_shorter[OF Cons] .
    have b: "(if c = cu CHR ''{'' then parse_object (parse_members n) r
              else if c = cu CHR ''['' then parse_array (parse_elements n) r
              else parse_scalar (c # r)) = Some (v, t)"
      using a unfolding parse_value.simps Cons by simp
    consider (obj) "c = cu CHR ''{''" "parse_object (parse_members n) r = Some (v, t)"
      | (arr) "c \<noteq> cu CHR ''{''" "c = cu CHR ''[''" "parse_array (parse_elements n) r = Some (v, t)"
      | (sc) "c \<noteq> cu CHR ''{''" "c \<noteq> cu CHR ''[''" "parse_scalar (c # r) = Some (v, t)"
      using b by (auto split: if_splits)
    then show ?thesis
    proof cases
      case obj
      have ltr: "length t < length r"
        using parse_object_fuel[OF obj(2), of "parse_members n"] IHm1 by blast
      have "parse_value m s = Some (v, t)" if m: "length s - length t \<le> m" for m
      proof -
        from m ltr lr obtain k where k: "m = Suc k" by (cases m) auto
        have kr: "length r - length t \<le> k" using m k lr by simp
        have "length t < length r \<and> parse_members k r = Some (kvs, t)"
          if "parse_members n r = Some (kvs, t)" for kvs
          using IHm1[OF that] IHm2[OF that kr] by simp
        then have "parse_object (parse_members k) r = Some (v, t)"
          using parse_object_fuel[OF obj(2), of "parse_members k"] by blast
        then show ?thesis unfolding k parse_value.simps Cons using obj(1) by simp
      qed
      then show ?thesis using ltr lr by simp
    next
      case arr
      have ltr: "length t < length r"
        using parse_array_fuel[OF arr(3), of "parse_elements n"] IHe1 by blast
      have "parse_value m s = Some (v, t)" if m: "length s - length t \<le> m" for m
      proof -
        from m ltr lr obtain k where k: "m = Suc k" by (cases m) auto
        have kr: "length r - length t \<le> k" using m k lr by simp
        have "length t < length r \<and> parse_elements k r = Some (vs, t)"
          if "parse_elements n r = Some (vs, t)" for vs
          using IHe1[OF that] IHe2[OF that kr] by simp
        then have "parse_array (parse_elements k) r = Some (v, t)"
          using parse_array_fuel[OF arr(3), of "parse_elements k"] by blast
        then show ?thesis unfolding k parse_value.simps Cons using arr(1,2) by simp
      qed
      then show ?thesis using ltr lr by simp
    next
      case sc
      have lt: "length t < length s"
        using parse_scalar_shorter[OF sc(3)] lr by simp
      have "parse_value m s = Some (v, t)" if m: "length s - length t \<le> m" for m
      proof -
        from m lt obtain k where k: "m = Suc k" by (cases m) auto
        show ?thesis unfolding k parse_value.simps Cons using sc by simp
      qed
      then show ?thesis using lt by simp
    qed
  qed
  have E: "length t < length s \<and> (\<forall>m. length s - length t \<le> m \<longrightarrow> parse_elements m s = Some (vs, t))"
    if a: "parse_elements (Suc n) s = Some (vs, t)" for s vs t
  proof -
    from a obtain v u where v: "parse_value n s = Some (v, u)"
      and tl: "parse_elements_tail (parse_elements n) v u = Some (vs, t)"
      by (auto split: option.splits)
    have lu: "length u < length s" using IHv1[OF v] .
    have ltu: "length t < length u"
      using parse_elements_tail_fuel[OF tl, of "parse_elements n"] IHe1 by blast
    have "parse_elements m s = Some (vs, t)" if m: "length s - length t \<le> m" for m
    proof -
      from m lu ltu obtain k where k: "m = Suc k" by (cases m) auto
      have pv: "parse_value k s = Some (v, u)"
        using IHv2[OF v, of k] m k lu ltu by simp
      have "length t < length x \<and> parse_elements k x = Some (vs', t)"
        if x: "length x < length u" "parse_elements n x = Some (vs', t)" for vs' x
      proof -
        have "length x - length t \<le> k" using m k lu x(1) by simp
        then show ?thesis using IHe1[OF x(2)] IHe2[OF x(2)] by simp
      qed
      then have "parse_elements_tail (parse_elements k) v u = Some (vs, t)"
        using parse_elements_tail_fuel[OF tl, of "parse_elements k"] by blast
      then show ?thesis unfolding k using pv by simp
    qed
    then show ?thesis using lu ltu by simp
  qed
  have M: "length t < length s \<and> (\<forall>m. length s - length t \<le> m \<longrightarrow> parse_members m s = Some (kvs, t))"
    if a: "parse_members (Suc n) s = Some (kvs, t)" for s kvs t
  proof -
    from a obtain k0 u where key: "parse_member_key s = Some (k0, u)"
      by (auto split: option.splits)
    from a key obtain v w where v: "parse_value n u = Some (v, w)"
      and tl: "parse_members_tail (parse_members n) k0 v w = Some (kvs, t)"
      by (auto split: option.splits)
    have lu: "length u < length s" using parse_member_key_shorter[OF key] .
    have lw: "length w < length u" using IHv1[OF v] .
    have ltw: "length t < length w"
      using parse_members_tail_fuel[OF tl, of "parse_members n"] IHm1 by blast
    have "parse_members m s = Some (kvs, t)" if m: "length s - length t \<le> m" for m
    proof -
      from m lu lw ltw obtain k where k: "m = Suc k" by (cases m) auto
      have pv: "parse_value k u = Some (v, w)"
        using IHv2[OF v, of k] m k lu lw ltw by simp
      have "length t < length x \<and> parse_members k x = Some (kvs', t)"
        if x: "length x < length w" "parse_members n x = Some (kvs', t)" for kvs' x
      proof -
        have "length x - length t \<le> k" using m k lu lw x(1) by simp
        then show ?thesis using IHm1[OF x(2)] IHm2[OF x(2)] by simp
      qed
      then have "parse_members_tail (parse_members k) k0 v w = Some (kvs, t)"
        using parse_members_tail_fuel[OF tl, of "parse_members k"] by blast
      then show ?thesis unfolding k using key pv by simp
    qed
    then show ?thesis using lu lw ltw by simp
  qed
  show ?case using V E M by blast
qed

lemma JSON_parse_fuel:
  assumes "parse_value n s = Some (v, t)"
  shows "parse_value (Suc (length s)) s = Some (v, t)"
  using parse_fuel[of n] assms by (meson diff_le_self le_SucI)

lemma JSON_parse_any_fuel:
  assumes "parse_value n s = Some (v, t)" and "dropWhile json_ws t = []"
  shows "JSON_parse s = Some v"
  using JSON_parse_fuel[OF assms(1)] assms(2) by (simp add: JSON_parse_def)

section \<open>The properties of a parsed object\<close>

text \<open>
  An object that \<open>JSON.parse\<close> builds has each name once, and the value of a name is
  that of its last member in the text.
\<close>

lemma put_index_set:
  "set (put_index i k v ps) = insert (k, v) (set ps)"
proof (induction ps)
  case Nil
  show ?case by simp
next
  case (Cons p ps)
  obtain k' v' where p: "p = (k', v')" by (cases p)
  show ?case unfolding p put_index.simps using Cons.IH
    by (cases "array_index k'") auto
qed

lemma put_index_distinct:
  assumes "k \<notin> fst ` set ps" and "distinct (map fst ps)"
  shows "distinct (map fst (put_index i k v ps))"
  using assms
proof (induction ps)
  case Nil
  show ?case by simp
next
  case (Cons p ps)
  obtain k' v' where p: "p = (k', v')" by (cases p)
  have k: "k \<noteq> k'" "k \<notin> fst ` set ps" using Cons.prems(1) p by auto
  have d: "distinct (map fst ps)" "k' \<notin> fst ` set ps" using Cons.prems(2) p by auto
  have n: "k' \<notin> fst ` set (put_index i k v ps)"
    unfolding put_index_set using k(1) d(2) by auto
  show ?case unfolding p put_index.simps
    using Cons.IH[OF k(2) d(1)] Cons.prems p k n
    by (cases "array_index k'") auto
qed

lemma put_index_lookup:
  assumes "k \<notin> fst ` set ps"
  shows "map_of (put_index i k v ps) = (map_of ps)(k \<mapsto> v)"
  using assms
proof (induction ps)
  case Nil
  show ?case by simp
next
  case (Cons p ps)
  obtain k' v' where p: "p = (k', v')" by (cases p)
  have k: "k \<noteq> k'" "k \<notin> fst ` set ps" using Cons.prems(1) p by auto
  show ?case unfolding p put_index.simps using Cons.IH[OF k(2)] k(1)
    by (cases "array_index k'") (auto simp: fun_upd_twist)
qed

lemma replace_value_keys:
  "map fst (replace_value k v ps) = map fst ps"
  by (induction ps) auto

lemma replace_value_lookup:
  "k \<in> fst ` set ps \<Longrightarrow> map_of (replace_value k v ps) = (map_of ps)(k \<mapsto> v)"
proof (induction ps)
  case Nil
  then show ?case by simp
next
  case (Cons p ps)
  obtain k' v' where p: "p = (k', v')" by (cases p)
  show ?case
  proof (cases "k' = k")
    case True
    have "map_of ((k, v) # ps) x = ((map_of ((k, v') # ps))(k \<mapsto> v)) x" for x by simp
    then show ?thesis unfolding p replace_value.simps True by auto
  next
    case False
    then have "k \<in> fst ` set ps" using Cons.prems p by auto
    from Cons.IH[OF this]
    have "map_of ((k', v') # replace_value k v ps) x = ((map_of ((k', v') # ps))(k \<mapsto> v)) x" for x
      using False by simp
    then show ?thesis unfolding p replace_value.simps using False by auto
  qed
qed

lemma set_property_distinct:
  assumes "distinct (map fst ps)"
  shows "distinct (map fst (set_property ps (k, v)))"
proof (cases "k \<in> set (map fst ps)")
  case True
  then show ?thesis using assms by (simp add: set_property_def replace_value_keys)
next
  case False
  then have n: "k \<notin> fst ` set ps" by simp
  show ?thesis
  proof (cases "array_index k")
    case None
    then show ?thesis using False assms by (simp add: set_property_def)
  next
    case (Some i)
    then show ?thesis using False put_index_distinct[OF n assms] by (simp add: set_property_def)
  qed
qed

lemma set_property_lookup:
  "map_of (set_property ps (k, v)) = (map_of ps)(k \<mapsto> v)"
proof (cases "k \<in> set (map fst ps)")
  case True
  then have "k \<in> fst ` set ps" by simp
  from replace_value_lookup[OF this] show ?thesis using True by (simp add: set_property_def)
next
  case False
  then have n: "k \<notin> fst ` set ps" by simp
  show ?thesis
  proof (cases "array_index k")
    case None
    have kn: "map_of ps k = None" using n by (simp add: map_of_eq_None_iff)
    have "map_of (ps @ [(k, v)]) x = ((map_of ps)(k \<mapsto> v)) x" for x
      using kn by (cases "x = k") (simp_all add: map_add_def split: option.splits)
    then show ?thesis using False None by (auto simp: set_property_def)
  next
    case (Some i)
    then show ?thesis using False put_index_lookup[OF n] by (simp add: set_property_def)
  qed
qed

lemma foldl_set_property:
  assumes "distinct (map fst ps)"
  shows "distinct (map fst (foldl set_property ps kvs))
         \<and> map_of (foldl set_property ps kvs) = map_of ps ++ map_of (rev kvs)"
  using assms
proof (induction kvs arbitrary: ps)
  case Nil
  then show ?case by simp
next
  case (Cons kv kvs)
  obtain k v where kv: "kv = (k, v)" by (cases kv)
  have d: "distinct (map fst (set_property ps (k, v)))"
    using Cons.prems by (rule set_property_distinct)
  have l: "map_of (set_property ps (k, v)) = (map_of ps)(k \<mapsto> v)"
    by (rule set_property_lookup)
  have "((map_of ps)(k \<mapsto> v) ++ map_of (rev kvs)) x = (map_of ps ++ map_of (rev kvs @ [(k, v)])) x" for x
    by (simp add: map_add_def split: option.splits)
  then have e: "(map_of ps)(k \<mapsto> v) ++ map_of (rev kvs) = map_of ps ++ map_of (rev (kv # kvs))"
    unfolding kv by auto
  show ?case using Cons.IH[OF d] unfolding l e kv by simp
qed

lemma properties_distinct: "distinct (map fst (properties kvs))"
  using foldl_set_property[of "[]" kvs] by (simp add: properties_def)

lemma properties_last_member: "map_of (properties kvs) = map_of (rev kvs)"
  using foldl_set_property[of "[]" kvs] by (simp add: properties_def)

section \<open>Values of some texts\<close>

text \<open>
  Numbers are rounded to the nearest double (\<open>9007199254740993\<close> is \<open>2 ^ 53 + 1\<close> and
  gives \<open>2 ^ 53\<close>), a literal beyond the largest double is infinity, a repeated name
  keeps its place and its last value, array indices come first, and a \<open>\u\<close> escape is
  one code unit.
\<close>

lemma JSON_parse_examples:
  \<open>JSON_parse (js ''5'') = Some (JNum 0x4014000000000000)\<close>
  \<open>JSON_parse (js ''5.0e0'') = Some (JNum 0x4014000000000000)\<close>
  \<open>JSON_parse (js ''-0'') = Some (JNum 0x8000000000000000)\<close>
  \<open>JSON_parse (js ''0.1'') = Some (JNum 0x3FB999999999999A)\<close>
  \<open>JSON_parse (js ''1e23'') = Some (JNum 0x44B52D02C7E14AF6)\<close>
  \<open>JSON_parse (js ''9007199254740993'') = Some (JNum 0x4340000000000000)\<close>
  \<open>JSON_parse (js ''1e309'') = Some (JNum 0x7FF0000000000000)\<close>
  \<open>JSON_parse (js ''{"a": 1, "b": 2, "a": 3}'') = Some (JObj [(js ''a'', JNum 0x4008000000000000), (js ''b'', JNum 0x4000000000000000)])\<close>
  \<open>JSON_parse (js ''{"b": true, "10": null, "2": false}'') = Some (JObj [(js ''2'', JBool False), (js ''10'', JNull), (js ''b'', JBool True)])\<close>
  \<open>JSON_parse (js ''"a'' @ [cu (CHR 0x5C)] @ js ''u2014b"'') = Some (JStr [0x61, 0x2014, 0x62])\<close>
  by code_simp+

section \<open>Facts about the regular expression\<close>

lemma close_at_shape:
  "close_at t = Some n \<Longrightarrow>
     \<exists>w rest. t = cu CHR ''}'' # w @ cu CHR '']'' # rest \<and> (\<forall>c\<in>set w. js_space c) \<and> n = length w + 2"
proof -
  assume a: "close_at t = Some n"
  then obtain r where t: "t = cu CHR ''}'' # r"
    by (cases t) (auto simp: close_at_def split: if_splits)
  from a t obtain rest where d: "dropWhile js_space r = cu CHR '']'' # rest" and n: "n = length (takeWhile js_space r) + 2"
    by (auto simp: close_at_def split: list.splits if_splits)
  have "r = takeWhile js_space r @ cu CHR '']'' # rest" using d by (metis takeWhile_dropWhile_id)
  moreover have "\<forall>c\<in>set (takeWhile js_space r). js_space c" by (auto dest: set_takeWhileD)
  ultimately show ?thesis using t n by blast
qed

lemma open_at_shape:
  "open_at t = Some n \<Longrightarrow>
     \<exists>w rest. t = cu CHR ''['' # w @ cu CHR ''{'' # rest \<and> (\<forall>c\<in>set w. js_space c) \<and> n = length w + 2"
proof -
  assume a: "open_at t = Some n"
  then obtain r where t: "t = cu CHR ''['' # r"
    by (cases t) (auto simp: open_at_def split: if_splits)
  from a t obtain rest where d: "dropWhile js_space r = cu CHR ''{'' # rest" and n: "n = length (takeWhile js_space r) + 2"
    by (auto simp: open_at_def split: list.splits if_splits)
  have "r = takeWhile js_space r @ cu CHR ''{'' # rest" using d by (metis takeWhile_dropWhile_id)
  moreover have "\<forall>c\<in>set (takeWhile js_space r). js_space c" by (auto dest: set_takeWhileD)
  ultimately show ?thesis using t n by blast
qed

lemma open_at_intro:
  "\<forall>c\<in>set w. js_space c \<Longrightarrow> open_at (cu CHR ''['' # w @ cu CHR ''{'' # rest) = Some (length w + 2)"
proof -
  assume w: "\<forall>c\<in>set w. js_space c"
  have nb: "\<not> js_space (cu CHR ''{'')" by (simp add: js_space_def cu_def)
  have "dropWhile js_space (w @ cu CHR ''{'' # rest) = cu CHR ''{'' # rest"
    using w nb by (simp add: dropWhile_append3)
  moreover have "takeWhile js_space (w @ cu CHR ''{'' # rest) = w"
    using w nb by (simp add: takeWhile_tail)
  ultimately show ?thesis by (simp add: open_at_def)
qed

lemma close_at_intro:
  "\<forall>c\<in>set w. js_space c \<Longrightarrow> close_at (cu CHR ''}'' # w @ cu CHR '']'' # rest) = Some (length w + 2)"
proof -
  assume w: "\<forall>c\<in>set w. js_space c"
  have nb: "\<not> js_space (cu CHR '']'')" by (simp add: js_space_def cu_def)
  have "dropWhile js_space (w @ cu CHR '']'' # rest) = cu CHR '']'' # rest"
    using w nb by (simp add: dropWhile_append3)
  moreover have "takeWhile js_space (w @ cu CHR '']'' # rest) = w"
    using w nb by (simp add: takeWhile_tail)
  ultimately show ?thesis by (simp add: close_at_def)
qed

lemma close_at_Nil [simp]: "close_at [] = None"
  by (simp add: close_at_def)

lemma open_at_Nil [simp]: "open_at [] = None"
  by (simp add: open_at_def)

lemma close_at_nth:
  assumes "close_at (drop i t) = Some m"
  shows "i < length t \<and> t ! i = cu CHR ''}''"
proof -
  from close_at_shape[OF assms] obtain w rest where
    d: "drop i t = cu CHR ''}'' # w @ cu CHR '']'' # rest" by blast
  then have "i < length t" by (metis drop_all list.distinct(1) not_le)
  moreover have "t ! i = hd (drop i t)" using \<open>i < length t\<close> by (simp add: hd_drop_conv_nth)
  ultimately show ?thesis using d by simp
qed

lemma open_at_nth:
  assumes "open_at (drop i t) = Some m"
  shows "i < length t \<and> t ! i = cu CHR ''[''"
proof -
  from open_at_shape[OF assms] obtain w rest where
    d: "drop i t = cu CHR ''['' # w @ cu CHR ''{'' # rest" by blast
  then have "i < length t" by (metis drop_all list.distinct(1) not_le)
  moreover have "t ! i = hd (drop i t)" using \<open>i < length t\<close> by (simp add: hd_drop_conv_nth)
  ultimately show ?thesis using d by simp
qed

lemma close_at_inside:
  assumes "close_at t = Some n" and "0 < i" and "i < n"
  shows "t ! i \<noteq> cu CHR ''}''"
proof -
  from close_at_shape[OF assms(1)] obtain w rest where
    t: "t = cu CHR ''}'' # w @ cu CHR '']'' # rest" and w: "\<forall>c\<in>set w. js_space c" and n: "n = length w + 2"
    by blast
  have ti: "t ! i = (w @ cu CHR '']'' # rest) ! (i - 1)" using t assms(2) by (simp add: nth_Cons')
  show ?thesis
  proof (cases "i - 1 < length w")
    case True
    then have "t ! i \<in> set w" using ti by (simp add: nth_append)
    then have "js_space (t ! i)" using w by blast
    then show ?thesis by (auto simp: js_space_def cu_def)
  next
    case False
    then have "i - 1 = length w" using assms(2,3) n by simp
    then have "t ! i = cu CHR '']''" using ti by (simp add: nth_append)
    then show ?thesis by simp
  qed
qed

lemma open_at_inside:
  assumes "open_at t = Some k" and "i < k"
  shows "t ! i \<noteq> cu CHR ''}'' \<and> (0 < i \<longrightarrow> t ! i \<noteq> cu CHR ''['')"
proof -
  from open_at_shape[OF assms(1)] obtain w rest where
    t: "t = cu CHR ''['' # w @ cu CHR ''{'' # rest" and w: "\<forall>c\<in>set w. js_space c" and k: "k = length w + 2"
    by blast
  show ?thesis
  proof (cases i)
    case 0
    then show ?thesis using t by simp
  next
    case (Suc i')
    then have ti: "t ! i = (w @ cu CHR ''{'' # rest) ! i'" using t by simp
    show ?thesis
    proof (cases "i' < length w")
      case True
      then have "t ! i \<in> set w" using ti by (simp add: nth_append)
      then have "js_space (t ! i)" using w by blast
      then show ?thesis by (auto simp: js_space_def cu_def)
    next
      case False
      then have "i' = length w" using assms(2) k Suc by simp
      then have "t ! i = cu CHR ''{''" using ti by (simp add: nth_append)
      then show ?thesis by simp
    qed
  qed
qed

lemma greedy_body_None:
  "greedy_body t = None \<Longrightarrow> close_at (drop i t) = None"
proof (induction t arbitrary: i)
  case Nil
  then show ?case by simp
next
  case (Cons c cs)
  then have a: "greedy_body cs = None" "close_at (c # cs) = None"
    by (auto split: option.splits)
  show ?case
  proof (cases i)
    case 0
    then show ?thesis using a(2) by simp
  next
    case (Suc i')
    then show ?thesis using Cons.IH[OF a(1), of i'] by simp
  qed
qed

lemma greedy_body_Some:
  "greedy_body t = Some n \<Longrightarrow>
     n \<le> length t
     \<and> (\<exists>j<n. close_at (drop j t) = Some (n - j))
     \<and> (\<forall>i m. close_at (drop i t) = Some m \<longrightarrow> i + m \<le> n)"
proof (induction t arbitrary: n)
  case Nil
  then show ?case by simp
next
  case (Cons c cs)
  show ?case
  proof (cases "greedy_body cs")
    case None
    then have c: "close_at (c # cs) = Some n" using Cons.prems by simp
    from close_at_shape[OF c] have len: "n \<le> length (c # cs)" "0 < n" by auto
    have ex: "\<exists>j<n. close_at (drop j (c # cs)) = Some (n - j)"
      using c len(2) by (intro exI[of _ 0]) simp
    have bound: "\<forall>i m. close_at (drop i (c # cs)) = Some m \<longrightarrow> i + m \<le> n"
    proof (intro allI impI)
      fix i m assume h: "close_at (drop i (c # cs)) = Some m"
      show "i + m \<le> n"
      proof (cases i)
        case 0
        then show ?thesis using h c by simp
      next
        case (Suc i')
        then show ?thesis using h greedy_body_None[OF None, of i'] by simp
      qed
    qed
    show ?thesis using len(1) ex bound by blast
  next
    case (Some n0)
    then have n: "n = Suc n0" using Cons.prems by simp
    from Cons.IH[OF Some] obtain j0 where
      l0: "n0 \<le> length cs" and j0: "j0 < n0" "close_at (drop j0 cs) = Some (n0 - j0)"
      and b0: "\<forall>i m. close_at (drop i cs) = Some m \<longrightarrow> i + m \<le> n0"
      by blast
    have ex: "\<exists>j<n. close_at (drop j (c # cs)) = Some (n - j)"
      using j0 n by (intro exI[of _ "Suc j0"]) simp
    have bound: "\<forall>i m. close_at (drop i (c # cs)) = Some m \<longrightarrow> i + m \<le> n"
    proof (intro allI impI)
      fix i m assume h: "close_at (drop i (c # cs)) = Some m"
      show "i + m \<le> n"
      proof (cases i)
        case 0
        then have c0: "close_at (c # cs) = Some m" using h by simp
        have "(c # cs) ! Suc j0 = cu CHR ''}''"
          using close_at_nth[of "Suc j0" "c # cs"] j0(2) by simp
        then have "\<not> Suc j0 < m" using close_at_inside[OF c0, of "Suc j0"] by auto
        then show ?thesis using 0 j0(1) n by simp
      next
        case (Suc i')
        then show ?thesis using h b0 n by simp
      qed
    qed
    show ?thesis using l0 n ex bound by auto
  qed
qed

lemma close_at_take:
  assumes "close_at t = Some n"
  shows "close_at (take n t) = Some n"
proof -
  from close_at_shape[OF assms] obtain w rest where
    t: "t = cu CHR ''}'' # w @ cu CHR '']'' # rest" and w: "\<forall>c\<in>set w. js_space c" and n: "n = length w + 2"
    by blast
  have "take n t = cu CHR ''}'' # w @ cu CHR '']'' # []" using t n by simp
  then show ?thesis using close_at_intro[OF w, of "[]"] n by simp
qed

lemma open_at_take:
  assumes "open_at t = Some k" and "k \<le> j"
  shows "open_at (take j t) = Some k"
proof -
  from open_at_shape[OF assms(1)] obtain w rest where
    t: "t = cu CHR ''['' # w @ cu CHR ''{'' # rest" and w: "\<forall>c\<in>set w. js_space c" and k: "k = length w + 2"
    by blast
  have "take j t = cu CHR ''['' # w @ cu CHR ''{'' # take (j - k) rest"
    using t k assms(2) by (cases j) (simp_all add: take_Cons')
  then show ?thesis using open_at_intro[OF w, of "take (j - k) rest"] k by simp
qed

lemma match_at_parts:
  assumes "match_at t = Some m"
  shows "\<exists>k n. open_at t = Some k \<and> greedy_body (drop k t) = Some n
               \<and> m = take (k + n) t \<and> k + n \<le> length t"
proof -
  from assms obtain k where k: "open_at t = Some k"
    by (auto simp: match_at_def split: option.splits)
  from assms k obtain n where n: "greedy_body (drop k t) = Some n" and m: "m = take (k + n) t"
    by (auto simp: match_at_def split: option.splits)
  have "k \<le> length t" using open_at_shape[OF k] by auto
  moreover have "n \<le> length (drop k t)" using greedy_body_Some[OF n] by blast
  ultimately have "k + n \<le> length t" by simp
  then show ?thesis using k n m by blast
qed

lemma jsonArrayMatch_leftmost:
  "jsonArrayMatch s = Some m \<Longrightarrow>
     \<exists>p. p \<le> length s \<and> match_at (drop p s) = Some m \<and> (\<forall>i<p. match_at (drop i s) = None)"
proof (induction s)
  case Nil
  then show ?case by simp
next
  case (Cons c cs)
  show ?case
  proof (cases "match_at (c # cs)")
    case (Some m')
    then have "m' = m" using Cons.prems by simp
    then show ?thesis using Some by (intro exI[of _ 0]) simp
  next
    case None
    then have "jsonArrayMatch cs = Some m" using Cons.prems by simp
    from Cons.IH[OF this] obtain p where
      p: "p \<le> length cs" "match_at (drop p cs) = Some m" "\<forall>i<p. match_at (drop i cs) = None"
      by blast
    have "\<forall>i<Suc p. match_at (drop i (c # cs)) = None"
    proof (intro allI impI)
      fix i assume "i < Suc p"
      then show "match_at (drop i (c # cs)) = None"
        using None p(3) by (cases i) simp_all
    qed
    then show ?thesis using p(1,2) by (intro exI[of _ "Suc p"]) simp
  qed
qed

lemma no_open_before_match:
  assumes "match_at (drop p s) = Some m" and "i < p" and "match_at (drop i s) = None"
  shows "open_at (drop i s) = None"
proof (rule ccontr)
  assume "open_at (drop i s) \<noteq> None"
  then obtain k where k: "open_at (drop i s) = Some k" by blast
  then have g: "greedy_body (drop k (drop i s)) = None"
    using assms(3) by (auto simp: match_at_def split: option.splits)
  from match_at_parts[OF assms(1)] obtain kp n where
    kp: "open_at (drop p s) = Some kp" and n: "greedy_body (drop kp (drop p s)) = Some n"
    by blast
  from greedy_body_Some[OF n] obtain j where
    j: "close_at (drop j (drop kp (drop p s))) = Some (n - j)" by blast
  have sp: "p < length s" "s ! p = cu CHR ''[''" using open_at_nth[OF kp] by simp_all
  have "i + k \<le> p"
  proof (rule ccontr)
    assume "\<not> i + k \<le> p"
    then have lt: "p - i < k" "0 < p - i" using assms(2) by simp_all
    have "drop i s ! (p - i) = s ! p" using assms(2) sp(1) by simp
    then show False using open_at_inside[OF k lt(1)] lt(2) sp(2) by simp
  qed
  then have "drop (j + kp + p - (i + k)) (drop k (drop i s)) = drop j (drop kp (drop p s))"
    by (simp add: add.commute add.left_commute)
  then show False using greedy_body_None[OF g, of "j + kp + p - (i + k)"] j by simp
qed

lemma jsonArrayMatch_span:
  assumes "jsonArrayMatch s = Some m"
  shows "\<exists>pre post. s = pre @ m @ post
           \<and> (\<exists>k. open_at m = Some k)
           \<and> (\<exists>j<length m. close_at (drop j m) = Some (length m - j))
           \<and> (\<forall>i<length pre. open_at (drop i s) = None)
           \<and> (\<forall>i n. close_at (drop i (m @ post)) = Some n \<longrightarrow> i + n \<le> length m)"
proof -
  from jsonArrayMatch_leftmost[OF assms] obtain p where
    p: "p \<le> length s" "match_at (drop p s) = Some m" "\<forall>i<p. match_at (drop i s) = None"
    by blast
  define t where "t = drop p s"
  from match_at_parts[OF p(2)] obtain k n where
    k: "open_at t = Some k" and n: "greedy_body (drop k t) = Some n"
    and m: "m = take (k + n) t" and len: "k + n \<le> length t"
    unfolding t_def by blast
  define pre where "pre = take p s"
  define post where "post = drop (k + n) t"
  have lm: "length m = k + n" using m len by simp
  have t: "t = m @ post" by (simp add: m post_def)
  have "s = take p s @ drop p s" by simp
  then have s: "s = pre @ m @ post" using t unfolding pre_def t_def by metis
  have lpre: "length pre = p" using p(1) by (simp add: pre_def)
  have o: "open_at m = Some k" using open_at_take[OF k, of "k + n"] m by simp
  from greedy_body_Some[OF n] obtain j where
    j: "j < n" "close_at (drop j (drop k t)) = Some (n - j)"
    and b: "\<forall>i q. close_at (drop i (drop k t)) = Some q \<longrightarrow> i + q \<le> n"
    by blast
  have "drop (k + j) m = take (n - j) (drop (j + k) t)"
    using m by (simp add: drop_take add.commute)
  then have "close_at (drop (k + j) m) = Some (n - j)"
    using close_at_take[OF j(2)] by (simp add: add.commute)
  then have c: "\<exists>j<length m. close_at (drop j m) = Some (length m - j)"
    using lm j(1) by (intro exI[of _ "k + j"]) simp
  have first: "\<forall>i<length pre. open_at (drop i s) = None"
    using no_open_before_match[OF p(2)] p(3) lpre by simp
  have last: "\<forall>i q. close_at (drop i (m @ post)) = Some q \<longrightarrow> i + q \<le> length m"
  proof (intro allI impI)
    fix i q assume h: "close_at (drop i (m @ post)) = Some q"
    then have h': "close_at (drop i t) = Some q" using t by simp
    show "i + q \<le> length m"
    proof (cases "i < k")
      case True
      then show ?thesis using open_at_inside[OF k True] close_at_nth[OF h'] by simp
    next
      case False
      then have "drop (i - k) (drop k t) = drop i t" by simp
      then have "(i - k) + q \<le> n" using b h' by metis
      then show ?thesis using lm False by simp
    qed
  qed
  show ?thesis using s o c first last by blast
qed

text \<open>
  The expression matches as soon as the text has a \<open>[\<close>, white space and \<open>{\<close>, and
  somewhere after them a \<open>}\<close>, white space and \<open>]\<close>.
\<close>

lemma match_at_complete:
  assumes "open_at t = Some k" and "k \<le> j" and "close_at (drop j t) = Some n"
  shows "match_at t \<noteq> None"
proof -
  have d: "drop (j - k) (drop k t) = drop j t" using assms(2) by simp
  have g: "greedy_body (drop k t) \<noteq> None"
  proof
    assume "greedy_body (drop k t) = None"
    from greedy_body_None[OF this, of "j - k"] have "close_at (drop j t) = None"
      unfolding d .
    then show False using assms(3) by simp
  qed
  then obtain n' where "greedy_body (drop k t) = Some n'" by blast
  then show ?thesis unfolding match_at_def assms(1) by simp
qed

lemma jsonArrayMatch_complete:
  "match_at (drop i s) \<noteq> None \<Longrightarrow> jsonArrayMatch s \<noteq> None"
proof (induction s arbitrary: i)
  case Nil
  then show ?case by (simp add: match_at_def)
next
  case (Cons c cs)
  show ?case
  proof (cases "match_at (c # cs)")
    case (Some m)
    then show ?thesis by simp
  next
    case None
    obtain i' where i: "i = Suc i'" using Cons.prems None by (cases i) simp_all
    have "match_at (drop i' cs) \<noteq> None" using Cons.prems unfolding i by simp
    from Cons.IH[OF this] show ?thesis using None by simp
  qed
qed

lemma jsonArrayMatch_finds_open_and_close:
  assumes "open_at (drop i s) = Some k" and "i + k \<le> j" and "close_at (drop j s) = Some n"
  shows "\<exists>m. jsonArrayMatch s = Some m"
proof -
  have d: "drop (j - i) (drop i s) = drop j s" using assms(2) by simp
  have c: "close_at (drop (j - i) (drop i s)) = Some n" unfolding d using assms(3) .
  have "k \<le> j - i" using assms(2) by simp
  from match_at_complete[OF assms(1) this c] have "match_at (drop i s) \<noteq> None" .
  from jsonArrayMatch_complete[OF this] show ?thesis by simp
qed

section \<open>Facts about the steps of the route\<close>

lemma combine_pages_concat:
  "combine_pages acc pages = acc @ concat (map (\<lambda>p. p @ newline @ newline) pages)"
  by (induction pages arbitrary: acc) simp_all

lemma POST_cases:
  "POST env req =
     (if \<not> truthy (userId req) then (Response400 ''Missing userId in request'', [])
      else if profiles env (the (userId req)) \<noteq> None \<and> \<not> truthy (resumeUrl req)
              \<and> truthy (resume_link (the (profiles env (the (userId req)))))
      then (Response500 ''Server error'' defaultRecommendations, [ProfileSelect (the (userId req))])
      else if stored_discovery env (the (userId req)) = None
              \<and> fst (extraction env (the (userId req)) (resumeUrl req)) = []
      then (Response200 defaultRecommendations,
            ProfileSelect (the (userId req)) # snd (extraction env (the (userId req)) (resumeUrl req)))
      else (Response200 (fst (generation env (the (userId req)) (stored_discovery env (the (userId req)))
                               (fst (extraction env (the (userId req)) (resumeUrl req))))),
            ProfileSelect (the (userId req)) # snd (extraction env (the (userId req)) (resumeUrl req))
              @ snd (generation env (the (userId req)) (stored_discovery env (the (userId req)))
                               (fst (extraction env (the (userId req)) (resumeUrl req))))))"
  unfolding POST_def Let_def stored_discovery_def case_prod_beta by simp

text \<open>The assignment to the constant \<open>resumeUrl\<close> (line 61).\<close>

lemma assignment_to_constant_answers_500:
  assumes "userId req = Some uid" and "uid \<noteq> []"
    and "profiles env uid = Some profileData"
    and "\<not> truthy (resumeUrl req)" and "truthy (resume_link profileData)"
  shows "POST env req = (Response500 ''Server error'' defaultRecommendations, [ProfileSelect uid])"
proof -
  have t: "truthy (userId req)" "the (userId req) = uid"
    using assms(1,2) by (simp_all add: truthy_def)
  show ?thesis unfolding POST_cases using t assms(3,4,5) by simp
qed

lemma extraction_events:
  "ev \<in> set (snd (extraction env uid url)) \<Longrightarrow> \<not> is_insert ev \<and> \<not> is_completion_call ev"
  by (auto simp: extraction_def extractResumeText_def
           split: option.splits if_splits ocr_response.splits)







lemma generateRoleRecommendations_as_shipped:
  "generateRoleRecommendations env d t = (defaultRecommendations, [])"
  by (simp add: generateRoleRecommendations_def new_ModelClient_def)

text \<open>The object that the loop passes to \<open>insert\<close> for an element that is not \<open>null\<close>.\<close>

lemma insert_row_of_value:
  "rec \<noteq> JNull \<Longrightarrow>
     insert_row uid rec
       = Some (RecommendationInsert uid (the (field rec (js ''role_title''))) (the (field rec (js ''description'')))
                 (the (field rec (js ''why_it_fits_professionally'')))
                 (the (field rec (js ''why_it_fits_personally''))))"
  by (cases rec) (simp_all add: insert_row_def)

lemma store_recommendations_trace:
  "JNull \<notin> set recs \<Longrightarrow>
     store_recommendations env uid k recs
       = (map (\<lambda>i. RecommendationInsert uid (the (field (recs ! i) (js ''role_title'')))
                      (the (field (recs ! i) (js ''description'')))
                      (the (field (recs ! i) (js ''why_it_fits_professionally'')))
                      (the (field (recs ! i) (js ''why_it_fits_personally'')))
                      (insert_fails env (k + i)))
              [0..<length recs], True)"
proof (induction recs arbitrary: k)
  case Nil
  show ?case by simp
next
  case (Cons rec recs)
  have r: "rec \<noteq> JNull" and rs: "JNull \<notin> set recs" using Cons.prems by auto
  have u: "[0..<length (rec # recs)] = 0 # map Suc [0..<length recs]"
    by (simp add: upt_conv_Cons map_Suc_upt del: upt_Suc)
  show ?case
    unfolding store_recommendations.simps insert_row_of_value[OF r] Cons.IH[OF rs] u
    by (simp add: comp_def)
qed

lemma store_recommendations_null:
  "JNull \<in> set recs \<Longrightarrow> \<not> snd (store_recommendations env uid k recs)"
proof (induction recs arbitrary: k)
  case Nil
  then show ?case by simp
next
  case (Cons rec recs)
  show ?case
  proof (cases "rec = JNull")
    case True
    then show ?thesis by (simp add: insert_row_def)
  next
    case False
    then have "JNull \<in> set recs" using Cons.prems by simp
    from Cons.IH[OF this, of "Suc k"] show ?thesis
      unfolding store_recommendations.simps insert_row_of_value[OF False]
      by (simp add: case_prod_beta)
  qed
qed

lemma generation_of_parsed:
  assumes "completion env (formattedData d) t = CompletionContent raw"
    and "parseRoleRecommendations raw = Inr recs"
  shows "fst (generation env uid d t) = (if JNull \<in> set recs then defaultRecommendations else recs)"
proof (cases "JNull \<in> set recs")
  case True
  obtain evs b where s: "store_recommendations env uid 0 recs = (evs, b)"
    by (cases "store_recommendations env uid 0 recs")
  then have "\<not> b" using store_recommendations_null[OF True, of env uid 0] by simp
  then show ?thesis using assms s True by (simp add: generation_def)
next
  case False
  then show ?thesis using assms store_recommendations_trace[OF False, of env uid 0]
    by (simp add: generation_def)
qed

lemma sorted_desc_take_drop:
  assumes "sorted_wrt (\<lambda>a b. f b \<le> (f a :: nat)) ys"
  shows "\<forall>a\<in>set (take n ys). \<forall>b\<in>set (drop n ys). f b \<le> f a"
proof -
  have "sorted_wrt (\<lambda>a b. f b \<le> f a) (take n ys @ drop n ys)" using assms by simp
  then show ?thesis unfolding sorted_wrt_append by blast
qed

lemma sorted_desc_rev_sort_key:
  "sorted_wrt (\<lambda>a b. f b \<le> (f a :: nat)) (rev (sort_key f xs))"
proof -
  have "sorted (map f (sort_key f xs))" by simp
  then have "sorted_wrt (\<lambda>a b. f a \<le> f b) (sort_key f xs)" by (simp add: sorted_map)
  then show ?thesis by (simp add: sorted_wrt_rev)
qed

lemma join_pages_terminated:
  "pages \<noteq> [] \<Longrightarrow> concat (map (\<lambda>p. p @ newline @ newline) pages) = join_pages pages @ newline @ newline"
  by (induction pages rule: join_pages.induct) simp_all



lemma parsed_recommendations_are_parse_values:
  assumes "parseRoleRecommendations raw = Inr recs"
  shows "JSON_parse (repair raw) = Some (JArr recs)
         \<or> (\<exists>v. JSON_parse (repair raw) = Some v \<and> \<not> isArray v \<and> recs = [v])"
proof (cases "JSON_parse (repair raw)")
  case None
  then show ?thesis using assms by (simp add: parseRoleRecommendations_def)
next
  case (Some v)
  then show ?thesis using assms
    by (cases v) (simp_all add: parseRoleRecommendations_def split: if_splits)
qed

lemma default_records_well_formed: "\<forall>r\<in>set defaultRecommendations. well_formed_record r"
  by (simp add: defaultRecommendations_def RoleRecommendation_def well_formed_record_def is_string_def)

section \<open>Facts about the upload\<close>

lemma try_upload_events:
  "try_upload env uid (ResumePath uid t e) k = Inl (msg, evs) \<Longrightarrow>
     length (filter is_resume_upload evs) = 1 \<and> filter is_placeholder_upload evs = []"
  "try_upload env uid (ResumePath uid t e) k = Inr (url, evs) \<Longrightarrow>
     length (filter is_resume_upload evs) = 1 \<and> filter is_placeholder_upload evs = []"
  by (auto simp: try_upload_def split: option.splits sum.splits)

lemma uploadFile_settled:
  assumes "\<not> fails_not_found env uid f k"
  shows "\<exists>tr. uploadFile env (Some uid) f k acc = Some (settled env uid f k, acc @ tr)
           \<and> length (filter is_resume_upload tr) = 1 \<and> filter is_placeholder_upload tr = []"
proof (cases "try_upload env uid (ResumePath uid (now env k) (fileExt (file_name f))) k")
  case (Inl e)
  obtain msg evs where e: "e = (msg, evs)" by (cases e)
  have n: "\<not> includes_str msg ''The resource was not found''"
    using assms Inl e by (simp add: fails_not_found_def)
  have "uploadFile env (Some uid) f k acc = Some (Null, acc @ evs @ [Toast ''Upload failed''])"
    using Inl e n by (subst uploadFile.simps) simp
  moreover have "settled env uid f k = Null" using Inl by (simp add: settled_def)
  ultimately show ?thesis using try_upload_events(1)[of env uid _ _ k msg evs] Inl e by simp
next
  case (Inr r)
  obtain url evs where r: "r = (url, evs)" by (cases r)
  have "uploadFile env (Some uid) f k acc = Some (SignedUrl url, acc @ evs)"
    using Inr r by (subst uploadFile.simps) simp
  moreover have "settled env uid f k = SignedUrl url" using Inr r by (simp add: settled_def)
  ultimately show ?thesis using try_upload_events(2)[of env uid _ _ k url evs] Inr r by simp
qed

lemma uploadFile_retry:
  assumes "fails_not_found env uid f k" and "provision env k = Provisioned"
  shows "\<exists>evs. uploadFile env (Some uid) f k acc
            = uploadFile env (Some uid) f (Suc k)
                (acc @ evs @ [Upload (PlaceholderPath uid), Remove (PlaceholderPath uid)])
           \<and> length (filter is_resume_upload evs) = 1 \<and> filter is_placeholder_upload evs = []"
proof (cases "try_upload env uid (ResumePath uid (now env k) (fileExt (file_name f))) k")
  case (Inl e)
  obtain msg evs where e: "e = (msg, evs)" by (cases e)
  have n: "includes_str msg ''The resource was not found''"
    using assms(1) Inl e by (simp add: fails_not_found_def)
  have "uploadFile env (Some uid) f k acc
          = uploadFile env (Some uid) f (Suc k)
              (acc @ evs @ [Upload (PlaceholderPath uid), Remove (PlaceholderPath uid)])"
    using Inl e n assms(2) by (subst uploadFile.simps) simp
  then show ?thesis using try_upload_events(1)[of env uid _ _ k msg evs] Inl e by blast
next
  case (Inr r)
  then show ?thesis using assms(1) by (simp add: fails_not_found_def)
qed

lemma uploadFile_retries_from:
  assumes "\<forall>i<n. fails_not_found env uid f (k + i) \<and> provision env (k + i) = Provisioned"
    and "\<not> fails_not_found env uid f (k + n)"
  shows "\<exists>tr. uploadFile env (Some uid) f k acc = Some (settled env uid f (k + n), acc @ tr)
           \<and> length (filter is_resume_upload tr) = Suc n
           \<and> length (filter is_placeholder_upload tr) = n"
  using assms
proof (induction n arbitrary: k acc)
  case 0
  then show ?case using uploadFile_settled[of env uid f k acc] by auto
next
  case (Suc n)
  have first: "fails_not_found env uid f k" "provision env k = Provisioned"
    using Suc.prems(1) by (metis add.right_neutral zero_less_Suc)+
  from uploadFile_retry[OF first, of acc] obtain evs where
    step: "uploadFile env (Some uid) f k acc
            = uploadFile env (Some uid) f (Suc k)
                (acc @ evs @ [Upload (PlaceholderPath uid), Remove (PlaceholderPath uid)])"
    and evs: "length (filter is_resume_upload evs) = 1" "filter is_placeholder_upload evs = []"
    by blast
  have rest: "\<forall>i<n. fails_not_found env uid f (Suc k + i) \<and> provision env (Suc k + i) = Provisioned"
    using Suc.prems(1) by (metis Suc_less_eq add_Suc_right add_Suc)
  have last: "\<not> fails_not_found env uid f (Suc k + n)" using Suc.prems(2) by simp
  from Suc.IH[OF rest last, of "acc @ evs @ [Upload (PlaceholderPath uid), Remove (PlaceholderPath uid)]"]
  obtain tr where
    tr: "uploadFile env (Some uid) f (Suc k)
           (acc @ evs @ [Upload (PlaceholderPath uid), Remove (PlaceholderPath uid)])
         = Some (settled env uid f (Suc k + n),
                 (acc @ evs @ [Upload (PlaceholderPath uid), Remove (PlaceholderPath uid)]) @ tr)"
    and c: "length (filter is_resume_upload tr) = Suc n" "length (filter is_placeholder_upload tr) = n"
    by blast
  have "uploadFile env (Some uid) f k acc
          = Some (settled env uid f (k + Suc n),
                  acc @ (evs @ [Upload (PlaceholderPath uid), Remove (PlaceholderPath uid)] @ tr))"
    using step tr by simp
  moreover have "length (filter is_resume_upload
                   (evs @ [Upload (PlaceholderPath uid), Remove (PlaceholderPath uid)] @ tr)) = Suc (Suc n)"
    using evs c by simp
  moreover have "length (filter is_placeholder_upload
                   (evs @ [Upload (PlaceholderPath uid), Remove (PlaceholderPath uid)] @ tr)) = Suc n"
    using evs c by simp
  ultimately show ?case by blast
qed

lemma uploadFile_never_settles:
  assumes "uploadFile env user f k acc = Some y"
  shows "env \<noteq> always_not_found \<or> user = None"
proof (rule uploadFile.raw_induct
         [where P = "\<lambda>env user f k trace y. env \<noteq> always_not_found \<or> user = None", OF _ assms],
       goal_cases)
  case (1 uploadFile' env user f k trace y)
  show ?case
  proof (rule ccontr)
    assume "\<not> (env \<noteq> always_not_found \<or> user = None)"
    then obtain uid where e: "env = always_not_found" "user = Some uid" by auto
    have i: "includes_str ''The resource was not found'' ''The resource was not found''" by simp
    from 1(2) have "uploadFile' env user f (Suc k)
        (trace @ [Upload (ResumePath uid (now env k) (fileExt (file_name f)))]
             @ [Upload (PlaceholderPath uid), Remove (PlaceholderPath uid)]) = Some y"
      using e i by (simp add: try_upload_def always_not_found_def)
    from 1(1)[OF this] e show False by simp
  qed
qed

section \<open>The cache check\<close>

text \<open>
  C1. For a user id (present, not empty) with at least one row in the table of
  recommendations, \<open>forceRefresh\<close> false, and the rows read (the query of the cache
  check is answered): \<open>getRecommendations\<close> returns rows of that user, each as the object
  of its four fields. They are three rows, or all the rows of the user when there are
  fewer; each is a stored row of the user, counted as often as it is stored; they come
  most recent first; and no row of the user that is left out is more recent than a row
  returned. With at most three rows stored, the rows returned are the rows stored. The
  only call of the run is the query: there is no request to the route and no call of
  the completion endpoint.
\<close>

theorem cache_hit_returns_recent_rows:
  assumes "u \<noteq> []" and "\<not> select_fails env"
    and "\<exists>r\<in>set (role_recommendations env). user_id r = u"
  shows "\<exists>rows. getRecommendations env (Some u) False
                   = (map (\<lambda>item. JObj [(js ''role_title'', role_title item),
                                         (js ''description'', description item),
                                         (js ''why_it_fits_professionally'', why_it_fits_professionally item),
                                         (js ''why_it_fits_personally'', why_it_fits_personally item)]) rows,
                      [RecommendationSelect u])
           \<and> rows \<noteq> []
           \<and> length rows = min 3 (length (filter (\<lambda>r. user_id r = u) (role_recommendations env)))
           \<and> mset rows \<subseteq># mset (filter (\<lambda>r. user_id r = u) (role_recommendations env))
           \<and> sorted_wrt (\<lambda>a b. created_at b \<le> created_at a) rows
           \<and> (\<forall>r'\<in>#mset (filter (\<lambda>r. user_id r = u) (role_recommendations env)) - mset rows.
                  \<forall>r\<in>set rows. created_at r' \<le> created_at r)
           \<and> (length (filter (\<lambda>r. user_id r = u) (role_recommendations env)) \<le> 3 \<longrightarrow>
                  mset rows = mset (filter (\<lambda>r. user_id r = u) (role_recommendations env)))"
proof -
  define xs where "xs = filter (\<lambda>r. user_id r = u) (role_recommendations env)"
  define ys where "ys = rev (sort_key created_at xs)"
  define rows where "rows = take 3 ys"
  have sel: "select_recent env u = Some rows"
    using assms(2) by (simp add: select_recent_def rows_def ys_def xs_def)
  have msys: "mset ys = mset xs" by (simp add: ys_def)
  have lys: "length ys = length xs" by (simp add: ys_def)
  have "xs \<noteq> []" using assms(3) by (auto simp: xs_def filter_empty_conv)
  then have "ys \<noteq> []" using lys by auto
  then have ne: "rows \<noteq> []" by (simp add: rows_def)
  have len: "length rows = min 3 (length xs)" using lys by (simp add: rows_def min.commute)
  have split: "mset ys = mset rows + mset (drop 3 ys)"
    unfolding rows_def by (metis append_take_drop_id mset_append)
  have sub: "mset rows \<subseteq># mset xs" using split msys by (metis mset_subset_eq_add_left)
  have diff: "mset xs - mset rows = mset (drop 3 ys)" using split msys by simp
  have desc: "sorted_wrt (\<lambda>a b. created_at b \<le> created_at a) ys"
    unfolding ys_def by (rule sorted_desc_rev_sort_key)
  have srt: "sorted_wrt (\<lambda>a b. created_at b \<le> created_at a) rows"
    unfolding rows_def using desc by (rule sorted_wrt_take)
  have recent: "\<forall>r'\<in>#mset xs - mset rows. \<forall>r\<in>set rows. created_at r' \<le> created_at r"
    unfolding diff using sorted_desc_take_drop[OF desc, of 3] by (auto simp: rows_def)
  have all: "length xs \<le> 3 \<longrightarrow> mset rows = mset xs"
    using msys lys by (simp add: rows_def)
  have "getRecommendations env (Some u) False
          = (map (\<lambda>item. JObj [(js ''role_title'', role_title item),
                                (js ''description'', description item),
                                (js ''why_it_fits_professionally'', why_it_fits_professionally item),
                                (js ''why_it_fits_personally'', why_it_fits_personally item)]) rows,
             [RecommendationSelect u])"
    using assms(1) sel ne by (simp add: getRecommendations_def truthy_def to_recommendation_def[abs_def])
  then show ?thesis using ne len sub srt recent all unfolding xs_def by blast
qed

text \<open>The theorem at the user \<open>u1\<close> of the concrete run, who has four rows.\<close>

theorem cache_hit_returns_recent_rows_witness:
  "''u1'' \<noteq> [] \<and> \<not> select_fails (demo_services demo_content)
   \<and> demo_row 4 ''b'' \<in> set (role_recommendations (demo_services demo_content))
   \<and> user_id (demo_row 4 ''b'') = ''u1''
   \<and> getRecommendations (demo_services demo_content) (Some ''u1'') False
       = ([JObj [(js ''role_title'', JStr (js ''b'')), (js ''description'', JStr (js ''d'')),
                 (js ''why_it_fits_professionally'', JStr (js ''p'')), (js ''why_it_fits_personally'', JStr (js ''q''))],
           JObj [(js ''role_title'', JStr (js ''e'')), (js ''description'', JStr (js ''d'')),
                 (js ''why_it_fits_professionally'', JStr (js ''p'')), (js ''why_it_fits_personally'', JStr (js ''q''))],
           JObj [(js ''role_title'', JStr (js ''c'')), (js ''description'', JStr (js ''d'')),
                 (js ''why_it_fits_professionally'', JStr (js ''p'')), (js ''why_it_fits_personally'', JStr (js ''q''))]],
          [RecommendationSelect ''u1''])"
proof -
  have v: "fst (getRecommendations (demo_services demo_content) (Some ''u1'') False)
       = [JObj [(js ''role_title'', JStr (js ''b'')), (js ''description'', JStr (js ''d'')),
                 (js ''why_it_fits_professionally'', JStr (js ''p'')), (js ''why_it_fits_personally'', JStr (js ''q''))],
           JObj [(js ''role_title'', JStr (js ''e'')), (js ''description'', JStr (js ''d'')),
                 (js ''why_it_fits_professionally'', JStr (js ''p'')), (js ''why_it_fits_personally'', JStr (js ''q''))],
           JObj [(js ''role_title'', JStr (js ''c'')), (js ''description'', JStr (js ''d'')),
                 (js ''why_it_fits_professionally'', JStr (js ''p'')), (js ''why_it_fits_personally'', JStr (js ''q''))]]"
    by code_simp
  have h1: "''u1'' \<noteq> []" by simp
  have h2: "\<not> select_fails (demo_services demo_content)" by (simp add: demo_services_def)
  have h3: "demo_row 4 ''b'' \<in> set (role_recommendations (demo_services demo_content))"
    by (simp add: demo_services_def)
  have h4: "user_id (demo_row 4 ''b'') = ''u1''" by (simp add: demo_row_def)
  have h5: "\<exists>r\<in>set (role_recommendations (demo_services demo_content)). user_id r = ''u1''"
    using h3 h4 by blast
  from cache_hit_returns_recent_rows[OF h1 h2 h5]
  have "snd (getRecommendations (demo_services demo_content) (Some ''u1'') False)
               = [RecommendationSelect ''u1'']"
    by (elim exE conjE) simp
  then show ?thesis using h1 h2 h3 h4 v by (simp add: prod_eq_iff)
qed

text \<open>
  When the query is answered with an error the rows cannot be read: the guard
  \<open>!existingError\<close> sends the run on to the generation.
\<close>

lemma cache_read_error_goes_to_generation:
  "demo_row 4 ''b'' \<in> set (role_recommendations ((demo_services demo_content)\<lparr>select_fails := True\<rparr>))
   \<and> user_id (demo_row 4 ''b'') = ''u1''
   \<and> getRecommendations ((demo_services demo_content)\<lparr>select_fails := True\<rparr>) (Some ''u1'') False
       = ([JObj [(js ''role_title'', JStr (js ''X''))]],
          [RecommendationSelect ''u1'', ProfileSelect ''u1'', ApiPost demo_request,
           ProfileSelect ''u1'', CompletionCall demo_discovery [],
           RecommendationInsert ''u1'' (Some (JStr (js ''X''))) None None None False])"
  by code_simp

section \<open>The short cut to the defaults\<close>

text \<open>
  C2. For a request with a user id, when the profile gives no discovery data (the
  column is empty, or the profile read fails) and the extraction step gives no resume
  text: the response carries the default recommendations and the run makes no call of
  the completion endpoint. The test of the route is \<open>!discoveryData && !resumeText\<close>:
  it asks whether discovery data is there, not whether its selections are empty.
\<close>

theorem no_discovery_no_resume_returns_defaults:
  assumes "userId req = Some uid" and "uid \<noteq> []"
    and "stored_discovery env uid = None"
    and "fst (extraction env uid (resumeUrl req)) = []"
  shows "recommendations_of (fst (POST env req)) = Some defaultRecommendations
         \<and> (\<forall>ev\<in>set (snd (POST env req)). \<not> is_completion_call ev)"
proof -
  have t: "truthy (userId req)" "the (userId req) = uid"
    using assms(1,2) by (simp_all add: truthy_def)
  have ex: "\<forall>ev\<in>set (snd (extraction env uid (resumeUrl req))). \<not> is_completion_call ev"
    using extraction_events by blast
  show ?thesis
    unfolding POST_cases using t assms(3,4) ex by simp
qed

text \<open>The theorem at a user \<open>u2\<close> whose profile read fails, without a resume URL.\<close>

theorem no_discovery_no_resume_returns_defaults_witness:
  "userId \<lparr>userId = Some ''u2'', resumeUrl = None\<rparr> = Some ''u2'' \<and> ''u2'' \<noteq> []
   \<and> stored_discovery (demo_services demo_content) ''u2'' = None
   \<and> fst (extraction (demo_services demo_content) ''u2'' (resumeUrl \<lparr>userId = Some ''u2'', resumeUrl = None\<rparr>)) = []
   \<and> recommendations_of (fst (POST (demo_services demo_content) \<lparr>userId = Some ''u2'', resumeUrl = None\<rparr>))
       = Some defaultRecommendations
   \<and> filter is_completion_call (snd (POST (demo_services demo_content) \<lparr>userId = Some ''u2'', resumeUrl = None\<rparr>)) = []"
proof -
  let ?req = "\<lparr>userId = Some ''u2'', resumeUrl = None\<rparr>"
  have h1: "userId ?req = Some ''u2''" by simp
  have h2: "''u2'' \<noteq> []" by simp
  have h3: "stored_discovery (demo_services demo_content) ''u2'' = None"
    by (simp add: stored_discovery_def demo_services_def)
  have h4: "fst (extraction (demo_services demo_content) ''u2'' (resumeUrl ?req)) = []"
    by (simp add: extraction_def)
  show ?thesis
    using h1 h2 h3 h4 no_discovery_no_resume_returns_defaults[OF h1 h2 h3 h4]
    by (simp add: filter_empty_conv)
qed

text \<open>
  Discovery data that is present with empty selections in the three categories, and
  no resume: the object is truthy, so the completion endpoint is called and its
  record is returned and inserted.
\<close>

theorem empty_selections_counterexample:
  "stored_discovery empty_selection_services ''u1'' = Some empty_discovery
   \<and> selected (skills empty_discovery) = []
   \<and> selected (interests empty_discovery) = []
   \<and> selected (values_sel empty_discovery) = []
   \<and> fst (extraction empty_selection_services ''u1'' (resumeUrl demo_request)) = []
   \<and> POST empty_selection_services demo_request
       = (Response200 [JObj [(js ''role_title'', JStr (js ''X''))]],
          [ProfileSelect ''u1'', CompletionCall empty_discovery [],
           RecommendationInsert ''u1'' (Some (JStr (js ''X''))) None None None False])"
  by code_simp

section \<open>The retry of the upload\<close>

text \<open>
  C3. When the first \<open>n\<close> calls of \<open>uploadFile\<close> fail with an error whose message says
  that the resource was not found, each followed by a provisioning that does not
  throw, and call \<open>n\<close> does not fail that way: the upload returns what call \<open>n\<close> gives
  (the signed URL, or \<open>null\<close> for another error), after \<open>n + 1\<close> uploads of the file and
  \<open>n\<close> uploads of the placeholder. The retry follows every such failure, not only the
  first one; for \<open>n = 1\<close> this is one provisioning and one retry.
\<close>

theorem upload_retries_after_every_not_found:
  assumes "\<forall>i<n. fails_not_found env uid f i \<and> provision env i = Provisioned"
    and "\<not> fails_not_found env uid f n"
  shows "\<exists>tr. uploadFile env (Some uid) f 0 [] = Some (settled env uid f n, tr)
           \<and> length (filter is_resume_upload tr) = Suc n
           \<and> length (filter is_placeholder_upload tr) = n"
  using uploadFile_retries_from[of n env uid f 0 "[]"] assms by simp

text \<open>The theorem at a storage service whose first upload alone fails.\<close>

theorem upload_retries_after_every_not_found_witness:
  "fails_not_found (not_found_times 1) ''u1'' demo_file 0
   \<and> provision (not_found_times 1) 0 = Provisioned
   \<and> \<not> fails_not_found (not_found_times 1) ''u1'' demo_file 1
   \<and> map_option fst (uploadFile (not_found_times 1) (Some ''u1'') demo_file 0 [])
       = Some (SignedUrl ''https://signed'')"
proof -
  have h1: "fails_not_found (not_found_times 1) ''u1'' demo_file 0"
    by (simp add: fails_not_found_def try_upload_def not_found_times_def)
  have h2: "provision (not_found_times 1) 0 = Provisioned" by (simp add: not_found_times_def)
  have h3: "\<not> fails_not_found (not_found_times 1) ''u1'' demo_file 1"
    by (simp add: fails_not_found_def try_upload_def not_found_times_def)
  have h4: "\<forall>i<1. fails_not_found (not_found_times 1) ''u1'' demo_file i
                 \<and> provision (not_found_times 1) i = Provisioned"
    using h1 h2 by simp
  have s: "settled (not_found_times 1) ''u1'' demo_file 1 = SignedUrl ''https://signed''"
    by (simp add: settled_def try_upload_def not_found_times_def)
  from upload_retries_after_every_not_found[OF h4 h3] obtain tr where
    "uploadFile (not_found_times 1) (Some ''u1'') demo_file 0 []
       = Some (settled (not_found_times 1) ''u1'' demo_file 1, tr)" by blast
  then show ?thesis using h1 h2 h3 s by simp
qed

text \<open>
  With a storage service that answers every upload with that error, the second
  failure is followed by another provisioning and another retry, and so is every
  later one: the upload never returns.
\<close>

theorem upload_unbounded_retry_counterexample:
  "fails_not_found always_not_found ''u1'' demo_file 0
   \<and> fails_not_found always_not_found ''u1'' demo_file 1
   \<and> uploadFile always_not_found (Some ''u1'') demo_file 0 [] = None"
proof -
  have n: "uploadFile always_not_found (Some ''u1'') demo_file 0 [] = None"
  proof (cases "uploadFile always_not_found (Some ''u1'') demo_file 0 []")
    case None
    then show ?thesis .
  next
    case (Some y)
    then show ?thesis using uploadFile_never_settles[of always_not_found "Some ''u1''"] by blast
  qed
  have "fails_not_found always_not_found ''u1'' demo_file 0"
       "fails_not_found always_not_found ''u1'' demo_file 1"
    by (simp_all add: fails_not_found_def try_upload_def always_not_found_def)
  then show ?thesis using n by simp
qed

section \<open>A completion that does not parse\<close>




section \<open>The span the repair keeps\<close>

text \<open>
  C5. When the regular expression matches the text left by the trim and the removal
  of the fence, \<open>repair\<close> keeps the match and drops the text before and after it. The
  match begins at the first \<open>[\<close> that a \<open>{\<close> follows after white space only (no such
  \<open>[\<close> begins before it) and ends with the last \<open>}\<close> that a \<open>]\<close> follows after white
  space only (no such pair ends after it). The brackets in between are not counted:
  the span runs to the last closing pair of the text, balanced or not.
\<close>

theorem repair_keeps_first_open_to_last_close:
  assumes "jsonArrayMatch (strip_fences (trim raw)) = Some m"
  shows "repair raw = m
         \<and> (\<exists>pre post. strip_fences (trim raw) = pre @ m @ post
              \<and> (\<exists>k. open_at m = Some k)
              \<and> (\<exists>j<length m. close_at (drop j m) = Some (length m - j))
              \<and> (\<forall>i<length pre. open_at (drop i (strip_fences (trim raw))) = None)
              \<and> (\<forall>i n. close_at (drop i (m @ post)) = Some n \<longrightarrow> i + n \<le> length m))"
  using assms jsonArrayMatch_span[OF assms] by (simp add: repair_def)

text \<open>The theorem at a text with prose before and after two arrays.\<close>

theorem repair_keeps_first_open_to_last_close_witness:
  "jsonArrayMatch (strip_fences (trim (js ''Here: '' @ two_arrays @ js '' Bye.''))) = Some two_arrays
   \<and> repair (js ''Here: '' @ two_arrays @ js '' Bye.'') = two_arrays"
proof -
  have h: "jsonArrayMatch (strip_fences (trim (js ''Here: '' @ two_arrays @ js '' Bye.''))) = Some two_arrays"
    by code_simp
  show ?thesis using h repair_keeps_first_open_to_last_close[OF h] by simp
qed

text \<open>
  For a text with two arrays the span kept is the whole text, from the first \<open>[\<close> to
  the last \<open>]\<close>, and not the first balanced span, which is the first array: \<open>JSON.parse\<close>
  fails on the span kept and succeeds on the first array.
\<close>

theorem greedy_span_not_balanced_counterexample:
  \<open>jsonArrayMatch two_arrays = Some two_arrays
   \<and> balanced_span two_arrays = Some (js ''[{"role_title": "A"}]'')
   \<and> repair two_arrays = two_arrays
   \<and> parseRoleRecommendations two_arrays = Inl SyntaxError
   \<and> JSON_parse (js ''[{"role_title": "A"}]'') = Some (JArr [JObj [(js ''role_title'', JStr (js ''A''))]])\<close>
  by code_simp

section \<open>The records of a completion that parses\<close>

text \<open>
  C6. When the parsing block succeeds, its batch is what \<open>JSON.parse\<close> gave for the
  repaired text, as it is: the elements of the array, or the one value that is not an
  array. The route returns this batch whatever its elements are, unless one of them is
  \<open>null\<close>; then the insertion loop throws while it reads the fields of that element, and
  the route returns the default recommendations. No field of a record is looked at
  before it is returned. \<open>generateRoleRecommendations\<close> returns the default
  recommendations on every input.
\<close>

theorem returned_records_are_not_validated:
  "(parseRoleRecommendations raw = Inr recs \<longrightarrow>
      JSON_parse (repair raw) = Some (JArr recs)
      \<or> (\<exists>v. JSON_parse (repair raw) = Some v \<and> \<not> isArray v \<and> recs = [v]))
   \<and> (parseRoleRecommendations raw = Inr recs
        \<and> completion env (formattedData d) t = CompletionContent raw \<longrightarrow>
          fst (generation env uid d t) = (if JNull \<in> set recs then defaultRecommendations else recs))
   \<and> (parseRoleRecommendations raw = Inr recs
        \<and> (\<forall>d t. completion env d t = CompletionContent raw)
        \<and> truthy (userId req)
        \<and> stored_discovery env (the (userId req)) \<noteq> None
        \<and> \<not> (\<not> truthy (resumeUrl req)
              \<and> truthy (resume_link (the (profiles env (the (userId req)))))) \<longrightarrow>
          fst (POST env req)
            = Response200 (if JNull \<in> set recs then defaultRecommendations else recs))
   \<and> generateRoleRecommendations env d t = (defaultRecommendations, [])"
proof (intro conjI impI)
  assume "parseRoleRecommendations raw = Inr recs"
  then show "JSON_parse (repair raw) = Some (JArr recs)
      \<or> (\<exists>v. JSON_parse (repair raw) = Some v \<and> \<not> isArray v \<and> recs = [v])"
    by (rule parsed_recommendations_are_parse_values)
next
  assume "parseRoleRecommendations raw = Inr recs
        \<and> completion env (formattedData d) t = CompletionContent raw"
  then show "fst (generation env uid d t) = (if JNull \<in> set recs then defaultRecommendations else recs)"
    using generation_of_parsed[of env d t raw recs uid] by simp
next
  assume a: "parseRoleRecommendations raw = Inr recs
        \<and> (\<forall>d t. completion env d t = CompletionContent raw)
        \<and> truthy (userId req)
        \<and> stored_discovery env (the (userId req)) \<noteq> None
        \<and> \<not> (\<not> truthy (resumeUrl req)
              \<and> truthy (resume_link (the (profiles env (the (userId req))))))"
  have g: "\<And>uid d t. fst (generation env uid d t)
                        = (if JNull \<in> set recs then defaultRecommendations else recs)"
    using a generation_of_parsed[of env _ _ raw recs] by blast
  have c: "\<not> (profiles env (the (userId req)) \<noteq> None \<and> \<not> truthy (resumeUrl req)
              \<and> truthy (resume_link (the (profiles env (the (userId req))))))"
    using a by blast
  have t: "\<not> \<not> truthy (userId req)" using a by simp
  have s: "\<not> (stored_discovery env (the (userId req)) = None
              \<and> fst (extraction env (the (userId req)) (resumeUrl req)) = [])"
    using a by blast
  show "fst (POST env req) = Response200 (if JNull \<in> set recs then defaultRecommendations else recs)"
    unfolding POST_cases if_not_P[OF t] if_not_P[OF c] if_not_P[OF s] fst_conv g ..
next
  show "generateRoleRecommendations env d t = (defaultRecommendations, [])"
    by (rule generateRoleRecommendations_as_shipped)
qed

text \<open>
  The theorem at a completion whose array holds a record with only a title, and a
  number.
\<close>

theorem returned_records_are_not_validated_witness:
  \<open>parseRoleRecommendations (js ''[{"role_title": "X"}, 7]'')
      = Inr [JObj [(js ''role_title'', JStr (js ''X''))], JNum 0x401C000000000000]
   \<and> truthy (userId demo_request)
   \<and> stored_discovery (demo_services (js ''[{"role_title": "X"}, 7]'')) (the (userId demo_request)) \<noteq> None
   \<and> \<not> truthy (resume_link (the (profiles (demo_services (js ''[{"role_title": "X"}, 7]''))
                                      (the (userId demo_request)))))
   \<and> JNull \<notin> set [JObj [(js ''role_title'', JStr (js ''X''))], JNum 0x401C000000000000]
   \<and> fst (POST (demo_services (js ''[{"role_title": "X"}, 7]'')) demo_request)
       = Response200 [JObj [(js ''role_title'', JStr (js ''X''))], JNum 0x401C000000000000]\<close>
proof -
  let ?raw = \<open>js ''[{"role_title": "X"}, 7]''\<close>
  let ?recs = "[JObj [(js ''role_title'', JStr (js ''X''))], JNum 0x401C000000000000]"
  have h1: "parseRoleRecommendations ?raw = Inr ?recs" by code_simp
  have h2: "\<forall>d t. completion (demo_services ?raw) d t = CompletionContent ?raw"
    by (simp add: demo_services_def)
  have h3: "truthy (userId demo_request)" by (simp add: demo_request_def truthy_def)
  have h4: "stored_discovery (demo_services ?raw) (the (userId demo_request)) \<noteq> None"
    by (simp add: stored_discovery_def demo_services_def demo_request_def)
  have h5: "\<not> truthy (resume_link (the (profiles (demo_services ?raw) (the (userId demo_request)))))"
    by (simp add: demo_services_def demo_request_def truthy_def)
  have h6: "JNull \<notin> set ?recs" by simp
  show ?thesis
    using returned_records_are_not_validated[where raw = ?raw and recs = ?recs
            and env = "demo_services ?raw" and req = demo_request
            and d = "Some demo_discovery" and t = "[]" and uid = "''u1''"]
          h1 h2 h3 h4 h5 h6
    by simp
qed

text \<open>
  A record whose \<open>role_title\<close> is \<open>null\<close>, with a field that is not one of the four and
  without the three others: the parse succeeds, and the route returns the record and
  sends it to the store.
\<close>

theorem record_without_fields_counterexample:
  \<open>parseRoleRecommendations (js ''[{"role_title": null, "salary": 5}]'')
     = Inr [JObj [(js ''role_title'', JNull), (js ''salary'', JNum 0x4014000000000000)]]
   \<and> \<not> well_formed_record (JObj [(js ''role_title'', JNull), (js ''salary'', JNum 0x4014000000000000)])
   \<and> POST (demo_services (js ''[{"role_title": null, "salary": 5}]'')) demo_request
       = (Response200 [JObj [(js ''role_title'', JNull), (js ''salary'', JNum 0x4014000000000000)]],
          [ProfileSelect ''u1'', CompletionCall demo_discovery [],
           RecommendationInsert ''u1'' (Some JNull) None None None False])\<close>
  by code_simp

section \<open>Inserts that fail\<close>



text \<open>
  A batch with a \<open>null\<close> element, no insert failing: the first record is inserted, the
  read of \<open>rec.role_title\<close> throws on \<open>null\<close>, the third record is not reached and the
  response carries the defaults.
\<close>

lemma null_element_ends_the_loop:
  \<open>POST (demo_services (js ''[{"role_title": "X"}, null, {"role_title": "Y"}]'')) demo_request
     = (Response200 defaultRecommendations,
        [ProfileSelect ''u1'', CompletionCall demo_discovery [],
         RecommendationInsert ''u1'' (Some (JStr (js ''X''))) None None None False])\<close>
  by code_simp

section \<open>A missing user id\<close>

text \<open>
  C8. For a user id that is missing or empty: the route answers with status 400 and
  the message \<open>Missing userId in request\<close>, with no recommendations in the body and
  no call made; the two client functions return the default recommendations
  (\<open>getRecommendations\<close> at its first guard, without any call; \<open>generateRecommendations\<close>
  in its \<open>catch\<close>, since the response is not \<open>ok\<close>).
\<close>

theorem missing_userId_route_error_client_defaults:
  assumes "\<not> truthy uid"
  shows "POST env \<lparr>userId = uid, resumeUrl = url\<rparr> = (Response400 ''Missing userId in request'', [])
         \<and> getRecommendations env uid forceRefresh = (defaultRecommendations, [])
         \<and> fst (generateRecommendations env uid url) = defaultRecommendations"
proof -
  have p: "POST env \<lparr>userId = uid, resumeUrl = url\<rparr> = (Response400 ''Missing userId in request'', [])"
    using assms by (simp add: POST_def)
  have g: "getRecommendations env uid forceRefresh = (defaultRecommendations, [])"
    using assms by (simp add: getRecommendations_def)
  have c: "fst (generateRecommendations env uid url) = defaultRecommendations"
    by (simp add: generateRecommendations_def Let_def p)
  show ?thesis using p g c by simp
qed

text \<open>The theorem at the empty user id.\<close>

theorem missing_userId_route_error_client_defaults_witness:
  "\<not> truthy (Some [])
   \<and> POST (demo_services demo_content) \<lparr>userId = Some [], resumeUrl = None\<rparr>
       = (Response400 ''Missing userId in request'', [])
   \<and> getRecommendations (demo_services demo_content) (Some []) True = (defaultRecommendations, [])
   \<and> fst (generateRecommendations (demo_services demo_content) (Some []) None) = defaultRecommendations"
proof -
  have h: "\<not> truthy (Some [])" by (simp add: truthy_def)
  show ?thesis
    using h missing_userId_route_error_client_defaults[OF h, of "demo_services demo_content" None True]
    by simp
qed

text \<open>
  Without a user id the client functions report no error to their caller: both
  return the default recommendations.
\<close>

theorem missing_userId_defaults_counterexample:
  "\<not> truthy None
   \<and> getRecommendations (demo_services demo_content) None False = (defaultRecommendations, [])
   \<and> generateRecommendations (demo_services demo_content) None None
       = (defaultRecommendations, [ApiPost \<lparr>userId = None, resumeUrl = None\<rparr>])"
  by (simp add: truthy_def getRecommendations_def generateRecommendations_def Let_def POST_def demo_services_def)

section \<open>The text of the pages\<close>

text \<open>
  C9. For a document URL and an API key that are present and an answer of the OCR
  endpoint with a sequence of pages: \<open>extractResumeText\<close> returns one string, the
  markdown of each page in page order, each page followed by a blank line (two line
  feeds). So adjacent pages are separated by a blank line, and a blank line follows
  the last page as well.
\<close>

theorem extract_pages_each_followed_by_blank_line:
  assumes "documentUrl \<noteq> []" and "apiKey \<noteq> []" and "ocr env documentUrl = OcrPages pages"
  shows "extractResumeText env documentUrl apiKey
           = (Inr (concat (map (\<lambda>page. page @ newline @ newline) pages)), [OcrRequest documentUrl])
         \<and> (pages \<noteq> [] \<longrightarrow>
              fst (extractResumeText env documentUrl apiKey) = Inr (join_pages pages @ newline @ newline))"
  using assms by (simp add: extractResumeText_def combine_pages_concat join_pages_terminated)

text \<open>The theorem at a document of two pages.\<close>

theorem extract_pages_each_followed_by_blank_line_witness:
  "''https://cv'' \<noteq> [] \<and> ''key'' \<noteq> []
   \<and> ocr ((demo_services demo_content)\<lparr>ocr := \<lambda>u. OcrPages [''A'', ''B'']\<rparr>) ''https://cv'' = OcrPages [''A'', ''B'']
   \<and> [''A'', ''B''] \<noteq> []
   \<and> fst (extractResumeText ((demo_services demo_content)\<lparr>ocr := \<lambda>u. OcrPages [''A'', ''B'']\<rparr>) ''https://cv'' ''key'')
       = Inr (''A'' @ newline @ newline @ ''B'' @ newline @ newline)"
proof -
  let ?env = "(demo_services demo_content)\<lparr>ocr := \<lambda>u. OcrPages [''A'', ''B'']\<rparr>"
  have h1: "''https://cv'' \<noteq> []" by simp
  have h2: "''key'' \<noteq> []" by simp
  have h3: "ocr ?env ''https://cv'' = OcrPages [''A'', ''B'']" by simp
  show ?thesis
    using h1 h2 h3 extract_pages_each_followed_by_blank_line[OF h1 h2 h3]
    by simp
qed

text \<open>
  For a document of one page the result is the page and two line feeds, not the page
  alone.
\<close>

theorem extract_trailing_blank_line_counterexample:
  "ocr (demo_services demo_content) ''https://cv'' = OcrPages [''A'']
   \<and> fst (extractResumeText (demo_services demo_content) ''https://cv'' ''key'') = Inr (''A'' @ newline @ newline)
   \<and> join_pages [''A''] = ''A''
   \<and> fst (extractResumeText (demo_services demo_content) ''https://cv'' ''key'') \<noteq> Inr (join_pages [''A''])"
  by (simp add: extractResumeText_def demo_services_def newline_def)

section \<open>The checks before the upload\<close>

text \<open>
  C10. For a file larger than \<open>5 * 1024 * 1024\<close> bytes, or whose type is neither the
  PDF nor the DOCX MIME type: \<open>handleFileChange\<close> and the \<open>onDrop\<close> handler return after
  their toast; the calls they made contain no upload, no removal, no signed URL and
  no write to the profile.
\<close>

theorem invalid_file_is_rejected_before_upload:
  assumes "file_size f > 5 * 1024 * 1024
           \<or> (file_type f \<noteq> ''application/pdf''
               \<and> file_type f \<noteq> ''application/vnd.openxmlformats-officedocument.wordprocessingml.document'')"
  shows "\<exists>evs. handleFileChange env user (Some f) = Some evs
               \<and> onDrop env user (Some f) = Some evs
               \<and> filter is_storage_call evs = []"
  using assms by (auto simp: handleFileChange_def onDrop_def validTypes_def)

text \<open>The theorem at a PDF of \<open>5 * 1024 * 1024 + 1\<close> bytes.\<close>

theorem invalid_file_is_rejected_before_upload_witness:
  "file_size (demo_file\<lparr>file_size := 5242881\<rparr>) > 5 * 1024 * 1024
   \<and> handleFileChange (not_found_times 0) (Some ''u1'') (Some (demo_file\<lparr>file_size := 5242881\<rparr>))
       = Some [Toast ''File too large'']
   \<and> map_option (filter is_storage_call)
        (onDrop (not_found_times 0) (Some ''u1'') (Some (demo_file\<lparr>file_size := 5242881\<rparr>))) = Some []"
proof -
  let ?f = "demo_file\<lparr>file_size := 5242881\<rparr>"
  have h: "file_size ?f > 5 * 1024 * 1024" by simp
  have e: "handleFileChange (not_found_times 0) (Some ''u1'') (Some ?f) = Some [Toast ''File too large'']"
    by (simp add: handleFileChange_def)
  from invalid_file_is_rejected_before_upload[of ?f "not_found_times 0" "Some ''u1''"] h
  obtain evs where "onDrop (not_found_times 0) (Some ''u1'') (Some ?f) = Some evs"
    "filter is_storage_call evs = []" by blast
  then show ?thesis using h e by simp
qed

end
